theory Spec2Isabelle
  imports Main "HOL-Library.List_Lexorder" "HOL-Library.Char_ord" "HOL-Library.Multiset"
begin

section \<open>Python strings\<close>

text \<open>
  Strings are character lists. The helpers below are the \<open>str\<close> methods that
  \<open>makegen.py\<close> calls, with Python's behaviour on the characters of the model
  (code points below 256).
\<close>

abbreviation NL :: char where "NL \<equiv> CHR 0x0A"
abbreviation TAB :: char where "TAB \<equiv> CHR 0x09"
abbreviation DQUOTE :: char where "DQUOTE \<equiv> CHR 0x22"
abbreviation BACKSLASH :: char where "BACKSLASH \<equiv> CHR 0x5C"

definition startswith :: "string \<Rightarrow> string \<Rightarrow> bool" where
  "startswith s p = (take (length p) s = p)"

text \<open>\<open>s.find(c)\<close> for a one-character \<open>c\<close>: the first index, or -1.\<close>

definition find_char :: "string \<Rightarrow> char \<Rightarrow> int" where
  "find_char s c = (if c \<in> set s then int (length (takeWhile (\<lambda>x. x \<noteq> c) s)) else - 1)"

text \<open>\<open>str.isspace\<close> on one character.\<close>

definition isspace :: "char \<Rightarrow> bool" where
  "isspace c = (c \<in> set [CHR 0x09, CHR 0x0A, CHR 0x0B, CHR 0x0C, CHR 0x0D,
                            CHR 0x1C, CHR 0x1D, CHR 0x1E, CHR 0x1F, CHR 0x20,
                            CHR 0x85, CHR 0xA0])"

definition strip :: "string \<Rightarrow> string" where
  "strip s = rev (dropWhile isspace (rev (dropWhile isspace s)))"

text \<open>\<open>s.split(c)\<close> for a one-character separator \<open>c\<close>.\<close>

fun split :: "string \<Rightarrow> char \<Rightarrow> string list" where
  "split [] c = [[]]"
| "split (x # xs) c =
     (if x = c then [] # split xs c
      else (case split xs c of w # ws \<Rightarrow> (x # w) # ws | [] \<Rightarrow> [[x]]))"

definition count_char :: "string \<Rightarrow> char \<Rightarrow> nat" where
  "count_char s c = length (filter (\<lambda>x. x = c) s)"

text \<open>
  \<open>str.upper\<close> on ASCII text: the letters a to z are mapped to A to Z and every
  other character is left as it is. Base names with characters outside ASCII are
  outside the model: there \<open>str.upper\<close> changes some of them (U+00E9 becomes
  U+00C9, U+00DF becomes SS).
\<close>

definition upper_char :: "char \<Rightarrow> char" where
  "upper_char c =
     (if 97 \<le> (of_char c :: nat) \<and> (of_char c :: nat) \<le> 122
      then char_of (of_char c - (32::nat)) else c)"

definition upper :: "string \<Rightarrow> string" where
  "upper s = map upper_char s"

section \<open>CodeFile\<close>

datatype error = KeyError string | IOError string | IndexError | TypeError

text \<open>
  A \<open>CodeFile\<close> object is mutable and is held in sets and in the lookup table by
  identity, so objects live in a store addressed by references.
\<close>

type_synonym ref = nat

record CodeFile =
  root :: string
  path :: string
  filename :: string
  basename :: string
  hasFoundAllDependentFiles :: bool
  dependentFiles :: "ref set"

type_synonym heap = "ref \<Rightarrow> CodeFile"

text \<open>\<open>CodeFile.__init__\<close>; \<open>split\<close> never returns the empty list, so index 0 exists.\<close>

definition CodeFile_init :: "string \<Rightarrow> string \<Rightarrow> string \<Rightarrow> CodeFile" where
  "CodeFile_init r p f =
     \<lparr> root = r, path = p, filename = f, basename = hd (split f (CHR ''.'')),
       hasFoundAllDependentFiles = False, dependentFiles = {} \<rparr>"

definition getSortingKey :: "CodeFile \<Rightarrow> string" where
  "getSortingKey c = path c @ filename c"

subsection \<open>Scanning a file for its quoted includes\<close>

text \<open>
  The lookup table \<open>codeFilesByFilename\<close> maps \<open>path + filename\<close> to a CodeFile
  object; the file system maps a full path to the lines that iterating over the opened
  file yields.
\<close>

type_synonym table = "string \<rightharpoonup> ref"
type_synonym filesystem = "string \<rightharpoonup> string list"

text \<open>
  The first loop of \<open>findDependentFiles\<close>. A subscript of the table with a missing
  key raises \<open>KeyError\<close>; subscript 1 of the split raises \<open>IndexError\<close> when there
  are fewer than two pieces.
\<close>

fun scanLines :: "table \<Rightarrow> string list \<Rightarrow> ref list \<Rightarrow> error + ref list" where
  "scanLines tbl [] includedFiles = Inr includedFiles"
| "scanLines tbl (line # rest) includedFiles =
     (if startswith line ''#include'' then
        if find_char (drop 8 line) DQUOTE \<ge> 0 then
          (case split (strip (drop 8 line)) DQUOTE of
             _ # pathAndFilename # _ \<Rightarrow>
               (case tbl pathAndFilename of
                  None \<Rightarrow> Inl (KeyError pathAndFilename)
                | Some file \<Rightarrow> scanLines tbl rest (includedFiles @ [file]))
           | _ \<Rightarrow> Inl IndexError)
        else scanLines tbl rest includedFiles
      else scanLines tbl rest includedFiles)"

definition readIncludedFiles :: "table \<Rightarrow> filesystem \<Rightarrow> CodeFile \<Rightarrow> error + ref list" where
  "readIncludedFiles tbl fs self =
     (case fs (root self @ path self @ filename self) of
        None \<Rightarrow> Inl (IOError (root self @ path self @ filename self))
      | Some lines \<Rightarrow> scanLines tbl lines [])"

subsection \<open>Resolution\<close>

text \<open>
  An outcome is \<open>None\<close> when the call does not return (unbounded recursion),
  \<open>Some (Inl e)\<close> when it raises \<open>e\<close>, and \<open>Some (Inr v)\<close> when it returns \<open>v\<close>.
  The call stack is taken to be unbounded: the interpreter's recursion limit, which
  ends an unbounded recursion with \<open>RecursionError\<close>, is not part of the model.
\<close>

type_synonym 'a outcome = "(error + 'a) option"

definition bindE :: "'a outcome \<Rightarrow> ('a \<Rightarrow> 'b outcome) \<Rightarrow> 'b outcome" where
  "bindE m k = (case m of None \<Rightarrow> None | Some (Inl e) \<Rightarrow> Some (Inl e) | Some (Inr a) \<Rightarrow> k a)"

lemma bindE_simps [simp]:
  "bindE None k = None"
  "bindE (Some (Inl e)) k = Some (Inl e)"
  "bindE (Some (Inr a)) k = k a"
  by (simp_all add: bindE_def)

lemma bindE_mono [partial_function_mono]:
  assumes m: "mono_option M" and k: "\<And>a. mono_option (\<lambda>f. K f a)"
  shows "mono_option (\<lambda>f. bindE (M f) (K f))"
proof -
  have eq: "(\<lambda>f. bindE (M f) (K f)) =
      (\<lambda>f. Option.bind (M f) (\<lambda>r. case r of Inl e \<Rightarrow> Some (Inl e) | Inr a \<Rightarrow> K f a))"
    by (auto simp: fun_eq_iff bindE_def split: option.splits sum.splits)
  have "mono_option (\<lambda>f. case r of Inl e \<Rightarrow> Some (Inl e) | Inr a \<Rightarrow> K f a)" for r
    by (cases r) (simp_all add: option.const_mono k)
  then show ?thesis
    unfolding eq by (intro bind_mono m)
qed

text \<open>A \<open>for\<close> loop over a list whose body may raise or not return.\<close>

fun for_each :: "'a list \<Rightarrow> ('a \<Rightarrow> 's \<Rightarrow> 's outcome) \<Rightarrow> 's \<Rightarrow> 's outcome" where
  "for_each [] body s = Some (Inr s)"
| "for_each (x # xs) body s = bindE (body x s) (for_each xs body)"

lemma for_each_mono [partial_function_mono]:
  assumes "\<And>x s. mono_option (\<lambda>f. B f x s)"
  shows "mono_option (\<lambda>f. for_each xs (B f) s)"
proof (induction xs arbitrary: s)
  case Nil
  show ?case by (simp add: option.const_mono)
next
  case (Cons x xs)
  show ?case
    by (simp only: for_each.simps) (intro bindE_mono assms Cons)
qed

text \<open>The three mutations of \<open>self\<close> in \<open>findDependentFiles\<close>.\<close>

definition clearDependentFiles :: "ref \<Rightarrow> heap \<Rightarrow> heap" where
  "clearDependentFiles self h = h(self := (h self)\<lparr>dependentFiles := {}\<rparr>)"

definition addDependentFile :: "ref \<Rightarrow> ref \<Rightarrow> heap \<Rightarrow> heap" where
  "addDependentFile self file h =
     h(self := (h self)\<lparr>dependentFiles := insert file (dependentFiles (h self))\<rparr>)"

definition updateDependentFiles :: "ref \<Rightarrow> ref set \<Rightarrow> heap \<Rightarrow> heap" where
  "updateDependentFiles self files h =
     h(self := (h self)\<lparr>dependentFiles := dependentFiles (h self) \<union> files\<rparr>)"

definition setHasFoundAll :: "ref \<Rightarrow> heap \<Rightarrow> heap" where
  "setHasFoundAll self h = h(self := (h self)\<lparr>hasFoundAllDependentFiles := True\<rparr>)"

partial_function (option) findDependentFiles ::
  "table \<Rightarrow> filesystem \<Rightarrow> ref \<Rightarrow> heap \<Rightarrow> (ref set \<times> heap) outcome" where
  "findDependentFiles tbl fs self h =
    (if hasFoundAllDependentFiles (h self) then Some (Inr (dependentFiles (h self), h))
     else
       (case readIncludedFiles tbl fs (h self) of
          Inl e \<Rightarrow> Some (Inl e)
        | Inr includedFiles \<Rightarrow>
            bindE (for_each includedFiles
                     (\<lambda>file h1.
                        bindE (findDependentFiles tbl fs file (addDependentFile self file h1))
                          (\<lambda>(found, h2). Some (Inr (updateDependentFiles self found h2))))
                     (clearDependentFiles self h))
              (\<lambda>h3. Some (Inr (dependentFiles (h3 self), setHasFoundAll self h3)))))"

text \<open>The loop of \<open>main\<close> that resolves every discovered file.\<close>

definition resolveAll :: "table \<Rightarrow> filesystem \<Rightarrow> ref list \<Rightarrow> heap \<Rightarrow> heap outcome" where
  "resolveAll tbl fs codeFiles h =
     for_each codeFiles
       (\<lambda>file h1. bindE (findDependentFiles tbl fs file h1) (\<lambda>(found, h2). Some (Inr h2))) h"

text \<open>
  The store \<open>main\<close> builds: every object comes from the constructor, so no file
  is resolved and every set is empty. \<open>names\<close> gives the constructor's arguments.
\<close>

definition initialHeap :: "(ref \<Rightarrow> string \<times> string \<times> string) \<Rightarrow> heap" where
  "initialHeap names = (\<lambda>x. case names x of (r, p, f) \<Rightarrow> CodeFile_init r p f)"

subsection \<open>Two small projects\<close>

text \<open>
  A project of three files, \<open>main.cpp\<close> including \<open>util.h\<close> including
  \<open>sub/impl.h\<close>, and a project of two headers that include each other.
\<close>

definition quoted :: "string \<Rightarrow> string" where
  "quoted p = ''#include '' @ [DQUOTE] @ p @ [DQUOTE, NL]"

definition chainNames :: "ref \<Rightarrow> string \<times> string \<times> string" where
  "chainNames x =
     (if x = 0 then (''./'', [], ''main.cpp'')
      else if x = 1 then (''./'', [], ''util.h'')
      else (''./'', ''sub/'', ''impl.h''))"

definition chainTable :: table where
  "chainTable = [''main.cpp'' \<mapsto> 0, ''util.h'' \<mapsto> 1, ''sub/impl.h'' \<mapsto> 2]"

definition chainFiles :: filesystem where
  "chainFiles =
     [''./main.cpp'' \<mapsto> [''#include <vector>'' @ [NL], quoted ''util.h'', ''int main() {}'' @ [NL]],
      ''./util.h'' \<mapsto> [quoted ''sub/impl.h''],
      ''./sub/impl.h'' \<mapsto> [''// leaf'' @ [NL]]]"

definition cycleNames :: "ref \<Rightarrow> string \<times> string \<times> string" where
  "cycleNames x = (if x = 0 then (''./'', [], ''a.h'') else (''./'', [], ''b.h''))"

definition cycleTable :: table where
  "cycleTable = [''a.h'' \<mapsto> 0, ''b.h'' \<mapsto> 1]"

definition cycleFiles :: filesystem where
  "cycleFiles = [''./a.h'' \<mapsto> [quoted ''b.h''], ''./b.h'' \<mapsto> [quoted ''a.h'']]"

section \<open>Package\<close>

text \<open>
  Iterating over a Python set yields its members in an order the language leaves open;
  \<open>iter s\<close> is that order for the set \<open>s\<close>.
\<close>

type_synonym iteration = "ref set \<Rightarrow> ref list"

record Package =
  root :: string
  path :: string
  cppFiles :: "ref list"
  pathToRoot :: string
  content :: string

definition Package_init :: "string \<Rightarrow> string \<Rightarrow> Package" where
  "Package_init r p =
     \<lparr> root = r, path = p, cppFiles = [],
       pathToRoot = fold (\<lambda>i s. s @ ''../'') [0..<count_char p (CHR ''/'')] ''./'',
       content = [] \<rparr>"

definition addCppFile :: "ref \<Rightarrow> 'a Package_scheme \<Rightarrow> 'a Package_scheme" where
  "addCppFile codeFile self = self\<lparr>cppFiles := cppFiles self @ [codeFile]\<rparr>"

text \<open>\<open>self.content += s\<close>\<close>

definition emit :: "string \<Rightarrow> 'a Package_scheme \<Rightarrow> 'a Package_scheme" where
  "emit s self = self\<lparr>content := content self @ s\<rparr>"

text \<open>\<open>sorted(codeFile.dependentFiles, key=...)\<close>: a stable sort of the iteration order.\<close>

definition sortedDependentFiles :: "heap \<Rightarrow> iteration \<Rightarrow> ref \<Rightarrow> ref list" where
  "sortedDependentFiles h iter codeFile =
     sort_key (\<lambda>c. getSortingKey (h c)) (iter (dependentFiles (h codeFile)))"

definition printVariables :: "heap \<Rightarrow> iteration \<Rightarrow> 'a Package_scheme \<Rightarrow> 'a Package_scheme" where
  "printVariables h iter self =
     fold (\<lambda>codeFile self.
             emit [NL, NL]
               (fold (\<lambda>dependentFile self.
                        emit ([BACKSLASH, NL, TAB] @ pathToRoot self @
                              CodeFile.path (h dependentFile) @ filename (h dependentFile)) self)
                  (sortedDependentFiles h iter codeFile)
                  (emit (''HEADERS_'' @ upper (basename (h codeFile)) @ '' = '') self)))
       (cppFiles self)
       (emit (''INC = -I '' @ pathToRoot self @ [NL]) self)"

definition printTargetAll :: "heap \<Rightarrow> 'a Package_scheme \<Rightarrow> 'a Package_scheme" where
  "printTargetAll h self =
     fold (\<lambda>codeFile. emit ([TAB] @ ''make '' @ basename (h codeFile) @ ''.o'' @ [NL]))
       (cppFiles self)
       (emit (''all:'' @ [NL]) self)"

definition printTargetExecutable :: "'a Package_scheme \<Rightarrow> 'a Package_scheme" where
  "printTargetExecutable self = self"

definition printTargetObjectFiles :: "heap \<Rightarrow> 'a Package_scheme \<Rightarrow> 'a Package_scheme" where
  "printTargetObjectFiles h self =
     fold (\<lambda>codeFile self.
             emit ([TAB] @ ''$(CXX) $(CPPFLAGS) $(CXXFLAGS) -c '' @ basename (h codeFile) @
                   ''.cpp $(INC)'' @ [NL])
               (emit (''$(HEADERS_'' @ upper (basename (h codeFile)) @ '')'' @ [NL])
                  (emit (basename (h codeFile) @ ''.o: '' @ basename (h codeFile) @ ''.cpp '') self)))
       (cppFiles self) self"

definition printTargetClean :: "'a Package_scheme \<Rightarrow> 'a Package_scheme" where
  "printTargetClean self = emit (''clean: '' @ [NL, TAB] @ ''rm *.o'' @ [NL]) self"

text \<open>
  \<open>Package.generateMakefile\<close> for an object of class \<open>Package\<close>. The files written
  are a map from path to text; writing replaces the text at the path.
\<close>

type_synonym written = "string \<rightharpoonup> string"

definition generateMakefile ::
  "heap \<Rightarrow> iteration \<Rightarrow> Package \<Rightarrow> written \<Rightarrow> Package \<times> written" where
  "generateMakefile h iter self out =
     (let self = self\<lparr>cppFiles := sort_key (\<lambda>codeFile. getSortingKey (h codeFile)) (cppFiles self)\<rparr>;
          self = self\<lparr>content := []\<rparr>;
          self = printVariables h iter self;
          self = printTargetAll h self;
          self = printTargetExecutable self;
          self = printTargetObjectFiles h self;
          self = printTargetClean self
      in (self, out(root self @ path self @ ''Makefile'' \<mapsto> content self)))"

section \<open>RootPackage\<close>

text \<open>
  Packages are compared by identity (\<open>package == self\<close>), so a package object is named
  by a reference; \<open>pathOf r\<close> is the \<open>path\<close> attribute of the object \<open>r\<close>, which no
  method assigns after construction. The constructor leaves \<open>allPackages\<close> at the
  placeholder 0 (here \<open>None\<close>), over which a \<open>for\<close> loop raises \<open>TypeError\<close>.
\<close>

type_synonym pref = nat

record RootPackage = Package +
  allPackages :: "pref list option"
  executableName :: string
  libs :: "string list"

definition RootPackage_init :: "string \<Rightarrow> string \<Rightarrow> string \<Rightarrow> string list \<Rightarrow> RootPackage" where
  "RootPackage_init r p exe ls =
     \<lparr> root = r, path = p, cppFiles = [],
       pathToRoot = pathToRoot (Package_init r p), content = [],
       allPackages = None, executableName = exe, libs = ls \<rparr>"

definition setAllPackages :: "(pref \<Rightarrow> string) \<Rightarrow> pref list \<Rightarrow> RootPackage \<Rightarrow> RootPackage" where
  "setAllPackages pathOf packages self = self\<lparr>allPackages := Some (sort_key pathOf packages)\<rparr>"

definition RootPackage_printVariables ::
  "heap \<Rightarrow> iteration \<Rightarrow> (pref \<Rightarrow> string) \<Rightarrow> RootPackage \<Rightarrow> error + RootPackage" where
  "RootPackage_printVariables h iter pathOf self =
     (let self = emit (''CXXFLAGS = -std=c++11'' @ [NL]) self;
          self = printVariables h iter self;
          self = emit ''OBJECTS = '' self
      in case allPackages self of
           None \<Rightarrow> Inl TypeError
         | Some packages \<Rightarrow>
             (let self = fold (\<lambda>package. emit ([BACKSLASH, NL, TAB] @ ''./'' @ pathOf package @ ''*.o''))
                          packages self;
                  self = emit [NL, NL] self;
                  self = emit ''LDLIBS ='' self;
                  self = fold (\<lambda>lib. emit ('' -l'' @ lib)) (libs self) self
              in Inr (emit [NL, NL] self)))"

definition RootPackage_printTargetAll ::
  "heap \<Rightarrow> (pref \<Rightarrow> string) \<Rightarrow> pref \<Rightarrow> RootPackage \<Rightarrow> error + RootPackage" where
  "RootPackage_printTargetAll h pathOf selfRef self =
     (let self = emit (''all:'' @ [NL]) self
      in case allPackages self of
           None \<Rightarrow> Inl TypeError
         | Some packages \<Rightarrow>
             (let self = fold (\<lambda>package self.
                                 if package = selfRef then self
                                 else emit ([TAB] @ ''cd '' @ pathOf package @ ''; make all'' @ [NL]) self)
                          packages self;
                  self = fold (\<lambda>codeFile. emit ([TAB] @ ''make '' @ basename (h codeFile) @ ''.o'' @ [NL]))
                          (cppFiles self) self
              in Inr (emit ([TAB] @ ''make '' @ executableName self @ [NL]) self)))"

definition RootPackage_printTargetExecutable :: "RootPackage \<Rightarrow> RootPackage" where
  "RootPackage_printTargetExecutable self =
     emit ([TAB] @ ''$(CXX) $(LDFLAGS) $(OBJECTS) $(LDLIBS) -o '' @ executableName self @ [NL])
       (emit (executableName self @ '': $(OBJECTS)'' @ [NL]) self)"

definition RootPackage_printTargetClean ::
  "(pref \<Rightarrow> string) \<Rightarrow> pref \<Rightarrow> RootPackage \<Rightarrow> error + RootPackage" where
  "RootPackage_printTargetClean pathOf selfRef self =
     (let self = emit (''clean:'' @ [NL]) self
      in case allPackages self of
           None \<Rightarrow> Inl TypeError
         | Some packages \<Rightarrow>
             (let self = fold (\<lambda>package self.
                                 if package = selfRef then self
                                 else emit ([TAB] @ ''cd '' @ pathOf package @ ''; make clean'' @ [NL]) self)
                          packages self
              in Inr (emit ([TAB] @ ''rm *.o '' @ executableName self @ [NL]) self)))"

text \<open>\<open>Package.generateMakefile\<close> for an object of class \<open>RootPackage\<close>.\<close>

definition RootPackage_generateMakefile ::
  "heap \<Rightarrow> iteration \<Rightarrow> (pref \<Rightarrow> string) \<Rightarrow> pref \<Rightarrow> RootPackage \<Rightarrow> written \<Rightarrow>
     error + RootPackage \<times> written" where
  "RootPackage_generateMakefile h iter pathOf selfRef self out =
     (let self = self\<lparr>cppFiles := sort_key (\<lambda>codeFile. getSortingKey (h codeFile)) (cppFiles self)\<rparr>;
          self = self\<lparr>content := []\<rparr>
      in case RootPackage_printVariables h iter pathOf self of
           Inl e \<Rightarrow> Inl e
         | Inr self \<Rightarrow>
             (case RootPackage_printTargetAll h pathOf selfRef self of
                Inl e \<Rightarrow> Inl e
              | Inr self \<Rightarrow>
                  (let self = RootPackage_printTargetExecutable self;
                       self = printTargetObjectFiles h self
                   in case RootPackage_printTargetClean pathOf selfRef self of
                        Inl e \<Rightarrow> Inl e
                      | Inr self \<Rightarrow>
                          Inr (self, out(root self @ path self @ ''Makefile'' \<mapsto> content self)))))"

section \<open>The small projects, resolved, and their packages\<close>

definition chainResolved :: heap where
  "chainResolved =
     (\<lambda>x. (initialHeap chainNames x)
        \<lparr>hasFoundAllDependentFiles := True,
         dependentFiles := (if x = 0 then {1, 2} else if x = 1 then {2} else {})\<rparr>)"

definition upwards :: iteration where
  "upwards s = filter (\<lambda>x. x \<in> s) [0, 1, 2]"

definition chainPackage :: Package where
  "chainPackage = addCppFile 0 (Package_init ''./'' [])"

definition twinNames :: "ref \<Rightarrow> string \<times> string \<times> string" where
  "twinNames x = (if x = 0 then (''./'', [], ''a.b.cpp'') else (''./'', [], ''a.c.cpp''))"

definition twinPackage :: Package where
  "twinPackage = addCppFile 1 (addCppFile 0 (Package_init ''./'' []))"

text \<open>
  A directory with two compilable units out of order and two headers: \<open>b.cpp\<close>
  depends on \<open>y.h\<close> and \<open>x.h\<close>, \<open>a.cpp\<close> on \<open>x.h\<close>. The project has three
  directories.
\<close>

definition pairNames :: "ref \<Rightarrow> string \<times> string \<times> string" where
  "pairNames x =
     (if x = 0 then (''./'', [], ''b.cpp'')
      else if x = 1 then (''./'', [], ''a.cpp'')
      else if x = 2 then (''./'', [], ''y.h'')
      else (''./'', [], ''x.h''))"

definition pairResolved :: heap where
  "pairResolved =
     (\<lambda>x. (initialHeap pairNames x)
        \<lparr>hasFoundAllDependentFiles := True,
         dependentFiles := (if x = 0 then {2, 3} else if x = 1 then {3} else {})\<rparr>)"

definition forwards :: iteration where
  "forwards s = filter (\<lambda>x. x \<in> s) [0, 1, 2, 3]"

definition backwards :: iteration where
  "backwards s = filter (\<lambda>x. x \<in> s) [3, 2, 1, 0]"

definition pairPackage :: Package where
  "pairPackage = addCppFile 1 (addCppFile 0 (Package_init ''./'' []))"

definition treePaths :: "pref \<Rightarrow> string" where
  "treePaths r = (if r = 0 then [] else if r = 1 then ''sub/'' else ''lib/'')"

definition pairRoot :: RootPackage where
  "pairRoot =
     setAllPackages treePaths [1, 2, 0]
       (addCppFile 1 (addCppFile 0 (RootPackage_init ''./'' [] ''app'' [''m''])))"

section \<open>Facts about the string helpers\<close>

lemma split_not_Nil: "split s c \<noteq> []"
  by (induction s) (auto split: list.splits)

lemma hd_split_no_sep: "c \<notin> set stem \<Longrightarrow> hd (split (stem @ c # ext) c) = stem"
  by (induction stem) (auto split: list.splits simp: split_not_Nil)

section \<open>The include graph and the calls that return\<close>

text \<open>
  \<open>directIncludes\<close> is the graph of the quoted includes that the table resolves. The
  calls of \<open>findDependentFiles\<close> that return are also given as derivations
  (\<open>resolves\<close> for a call, \<open>loops\<close> for its second loop), which are the form in
  which facts about returning calls are proved.
\<close>

definition includesDirectly :: "table \<Rightarrow> filesystem \<Rightarrow> CodeFile \<Rightarrow> ref \<Rightarrow> bool" where
  "includesDirectly tbl fs c g =
     (case readIncludedFiles tbl fs c of Inl e \<Rightarrow> False | Inr includedFiles \<Rightarrow> g \<in> set includedFiles)"

definition directIncludes :: "table \<Rightarrow> filesystem \<Rightarrow> heap \<Rightarrow> (ref \<times> ref) set" where
  "directIncludes tbl fs h = {(x, g). includesDirectly tbl fs (h x) g}"

inductive resolves :: "table \<Rightarrow> filesystem \<Rightarrow> ref \<Rightarrow> heap \<Rightarrow> ref set \<Rightarrow> heap \<Rightarrow> bool"
  and loops :: "table \<Rightarrow> filesystem \<Rightarrow> ref \<Rightarrow> ref list \<Rightarrow> heap \<Rightarrow> heap \<Rightarrow> bool"
  for tbl :: table and fs :: filesystem
where
  cached: "hasFoundAllDependentFiles (h x) \<Longrightarrow> resolves tbl fs x h (dependentFiles (h x)) h"
| computed: "\<not> hasFoundAllDependentFiles (h x) \<Longrightarrow> readIncludedFiles tbl fs (h x) = Inr gs \<Longrightarrow>
     loops tbl fs x gs (clearDependentFiles x h) h3 \<Longrightarrow>
     resolves tbl fs x h (dependentFiles (h3 x)) (setHasFoundAll x h3)"
| finished: "loops tbl fs x [] h h"
| step: "resolves tbl fs g (addDependentFile x g h) found h2 \<Longrightarrow>
     loops tbl fs x gs (updateDependentFiles x found h2) h3 \<Longrightarrow>
     loops tbl fs x (g # gs) h h3"

abbreviation loopBody where
  "loopBody f tbl fs self \<equiv> (\<lambda>file h1.
      bindE (f tbl fs file (addDependentFile self file h1))
        (\<lambda>(found, h2). Some (Inr (updateDependentFiles self found h2))))"

lemma bindE_eq_Some_Inr:
  "bindE m k = Some (Inr v) \<longleftrightarrow> (\<exists>a. m = Some (Inr a) \<and> k a = Some (Inr v))"
  by (auto simp: bindE_def split: option.splits sum.splits)

lemma for_each_loops:
  assumes ih: "\<And>g h found h2. f tbl fs g h = Some (Inr (found, h2)) \<Longrightarrow> resolves tbl fs g h found h2"
  shows "for_each gs (loopBody f tbl fs x) h = Some (Inr h3) \<Longrightarrow> loops tbl fs x gs h h3"
proof (induction gs arbitrary: h)
  case Nil
  then show ?case by (simp add: finished)
next
  case (Cons g gs)
  from Cons.prems obtain found h2 where
    a: "f tbl fs g (addDependentFile x g h) = Some (Inr (found, h2))" and
    b: "for_each gs (loopBody f tbl fs x) (updateDependentFiles x found h2) = Some (Inr h3)"
    by (auto simp: bindE_eq_Some_Inr)
  show ?case by (rule step[OF ih[OF a] Cons.IH[OF b]])
qed

lemma findDependentFiles_resolves_aux:
  assumes call: "findDependentFiles tbl fs x h = Some res"
  shows "\<forall>found h'. res = Inr (found, h') \<longrightarrow> resolves tbl fs x h found h'"
proof (rule findDependentFiles.raw_induct
    [where P = "\<lambda>tbl fs x h res. \<forall>found h'. res = Inr (found, h') \<longrightarrow> resolves tbl fs x h found h'",
      OF _ call])
  fix f :: "table \<Rightarrow> filesystem \<Rightarrow> ref \<Rightarrow> heap \<Rightarrow> (ref set \<times> heap) outcome"
    and tbl fs x h res
  assume ih: "\<And>tbl fs x h res. f tbl fs x h = Some res \<Longrightarrow>
      \<forall>found h'. res = Inr (found, h') \<longrightarrow> resolves tbl fs x h found h'"
  assume body: "(if hasFoundAllDependentFiles (h x) then Some (Inr (dependentFiles (h x), h))
     else
       (case readIncludedFiles tbl fs (h x) of
          Inl e \<Rightarrow> Some (Inl e)
        | Inr includedFiles \<Rightarrow>
            bindE (for_each includedFiles (loopBody f tbl fs x) (clearDependentFiles x h))
              (\<lambda>h3. Some (Inr (dependentFiles (h3 x), setHasFoundAll x h3))))) = Some res"
  show "\<forall>found h'. res = Inr (found, h') \<longrightarrow> resolves tbl fs x h found h'"
  proof (intro allI impI)
    fix found h' assume res: "res = Inr (found, h')"
    show "resolves tbl fs x h found h'"
    proof (cases "hasFoundAllDependentFiles (h x)")
      case True
      with body res show ?thesis by (auto intro: cached)
    next
      case False
      with body res obtain gs h3 where
        gs: "readIncludedFiles tbl fs (h x) = Inr gs" and
        l: "for_each gs (loopBody f tbl fs x) (clearDependentFiles x h) = Some (Inr h3)" and
        r: "found = dependentFiles (h3 x)" "h' = setHasFoundAll x h3"
        by (auto simp: bindE_eq_Some_Inr split: sum.splits)
      have "loops tbl fs x gs (clearDependentFiles x h) h3"
        using l by (rule for_each_loops[where f = f, rotated]) (use ih in blast)
      then show ?thesis unfolding r using False gs by (auto intro: computed)
    qed
  qed
qed

lemma findDependentFiles_resolves:
  "findDependentFiles tbl fs x h = Some (Inr (found, h')) \<Longrightarrow> resolves tbl fs x h found h'"
  using findDependentFiles_resolves_aux by blast

lemma resolves_findDependentFiles:
  "resolves tbl fs x h found h' \<Longrightarrow> findDependentFiles tbl fs x h = Some (Inr (found, h'))"
  "loops tbl fs x gs h h3 \<Longrightarrow> for_each gs (loopBody findDependentFiles tbl fs x) h = Some (Inr h3)"
proof (induction rule: resolves_loops.inducts)
  case (cached h x)
  then show ?case by (subst findDependentFiles.simps) simp
next
  case (computed h x gs h3)
  then show ?case by (subst findDependentFiles.simps) simp
next
  case (finished x h)
  then show ?case by simp
next
  case (step g x h found h2 gs h3)
  then show ?case by simp
qed

lemma findDependentFiles_iff:
  "findDependentFiles tbl fs x h = Some (Inr (found, h')) \<longleftrightarrow> resolves tbl fs x h found h'"
  using findDependentFiles_resolves resolves_findDependentFiles(1) by blast


subsection \<open>What a returning call leaves unchanged\<close>

definition sameFiles :: "heap \<Rightarrow> heap \<Rightarrow> bool" where
  "sameFiles h h' \<longleftrightarrow>
     (\<forall>x. CodeFile.root (h' x) = CodeFile.root (h x) \<and> CodeFile.path (h' x) = CodeFile.path (h x) \<and>
          filename (h' x) = filename (h x) \<and> basename (h' x) = basename (h x))"

lemma sameFiles_refl [simp]: "sameFiles h h"
  by (simp add: sameFiles_def)

lemma sameFiles_trans: "sameFiles h h1 \<Longrightarrow> sameFiles h1 h2 \<Longrightarrow> sameFiles h h2"
  by (simp add: sameFiles_def)

lemma sameFiles_ops [simp]:
  "sameFiles h (clearDependentFiles x h)"
  "sameFiles h (addDependentFile x g h)"
  "sameFiles h (updateDependentFiles x fo h)"
  "sameFiles h (setHasFoundAll x h)"
  by (simp_all add: sameFiles_def clearDependentFiles_def addDependentFile_def
      updateDependentFiles_def setHasFoundAll_def)

lemma readIncludedFiles_sameFiles:
  "sameFiles h h' \<Longrightarrow> readIncludedFiles tbl fs (h' x) = readIncludedFiles tbl fs (h x)"
  by (simp add: sameFiles_def readIncludedFiles_def split: option.splits)

lemma directIncludes_sameFiles:
  "sameFiles h h' \<Longrightarrow> directIncludes tbl fs h' = directIncludes tbl fs h"
  by (simp add: directIncludes_def includesDirectly_def readIncludedFiles_sameFiles)

lemma ops_other [simp]:
  "y \<noteq> x \<Longrightarrow> clearDependentFiles x h y = h y"
  "y \<noteq> x \<Longrightarrow> addDependentFile x g h y = h y"
  "y \<noteq> x \<Longrightarrow> updateDependentFiles x fo h y = h y"
  "y \<noteq> x \<Longrightarrow> setHasFoundAll x h y = h y"
  by (simp_all add: clearDependentFiles_def addDependentFile_def
      updateDependentFiles_def setHasFoundAll_def)

lemma ops_flag [simp]:
  "hasFoundAllDependentFiles (clearDependentFiles x h y) = hasFoundAllDependentFiles (h y)"
  "hasFoundAllDependentFiles (addDependentFile x g h y) = hasFoundAllDependentFiles (h y)"
  "hasFoundAllDependentFiles (updateDependentFiles x fo h y) = hasFoundAllDependentFiles (h y)"
  "hasFoundAllDependentFiles (setHasFoundAll x h y) = (y = x \<or> hasFoundAllDependentFiles (h y))"
  by (simp_all add: clearDependentFiles_def addDependentFile_def
      updateDependentFiles_def setHasFoundAll_def)

lemma ops_deps [simp]:
  "dependentFiles (clearDependentFiles x h x) = {}"
  "dependentFiles (addDependentFile x g h x) = insert g (dependentFiles (h x))"
  "dependentFiles (updateDependentFiles x fo h x) = dependentFiles (h x) \<union> fo"
  "dependentFiles (setHasFoundAll x h y) = dependentFiles (h y)"
  by (simp_all add: clearDependentFiles_def addDependentFile_def
      updateDependentFiles_def setHasFoundAll_def)

lemma resolves_frame_aux:
  "resolves tbl fs x h found h' \<Longrightarrow>
     sameFiles h h' \<and> (\<forall>y. hasFoundAllDependentFiles (h y) \<longrightarrow> h' y = h y) \<and>
     hasFoundAllDependentFiles (h' x) \<and> found = dependentFiles (h' x) \<and>
     (\<forall>y. \<not> hasFoundAllDependentFiles (h' y) \<longrightarrow> h' y = h y)"
  "loops tbl fs x gs h h3 \<Longrightarrow>
     sameFiles h h3 \<and> (\<forall>y. y \<noteq> x \<longrightarrow> hasFoundAllDependentFiles (h y) \<longrightarrow> h3 y = h y) \<and>
     (\<forall>y. hasFoundAllDependentFiles (h y) \<longrightarrow> hasFoundAllDependentFiles (h3 y)) \<and>
     (\<forall>y. y \<noteq> x \<longrightarrow> \<not> hasFoundAllDependentFiles (h3 y) \<longrightarrow> h3 y = h y)"
proof (induction rule: resolves_loops.inducts)
  case (cached h x)
  then show ?case by simp
next
  case (computed h x gs h3)
  have sf: "sameFiles h h3"
    using computed.IH sameFiles_trans[OF sameFiles_ops(1)] by blast
  have "sameFiles h (setHasFoundAll x h3)"
    using sf sameFiles_trans sameFiles_ops(4) by blast
  moreover have "\<forall>y. hasFoundAllDependentFiles (h y) \<longrightarrow> setHasFoundAll x h3 y = h y"
    using computed.IH computed.hyps(1) by (metis ops_other(1,4) ops_flag(1))
  moreover have "\<forall>y. \<not> hasFoundAllDependentFiles (setHasFoundAll x h3 y) \<longrightarrow> setHasFoundAll x h3 y = h y"
    using computed.IH by (metis ops_other(1,4) ops_flag(4))
  ultimately show ?case by simp
next
  case (finished x h)
  then show ?case by simp
next
  case (step g x h found h2 gs h3)
  let ?h1 = "addDependentFile x g h" and ?u = "updateDependentFiles x found h2"
  from step.IH have
    a1: "sameFiles ?h1 h2" and a2: "\<forall>y. hasFoundAllDependentFiles (?h1 y) \<longrightarrow> h2 y = ?h1 y" and
    a5: "\<forall>y. \<not> hasFoundAllDependentFiles (h2 y) \<longrightarrow> h2 y = ?h1 y" and
    b1: "sameFiles ?u h3" and b2: "\<forall>y. y \<noteq> x \<longrightarrow> hasFoundAllDependentFiles (?u y) \<longrightarrow> h3 y = ?u y" and
    b3: "\<forall>y. hasFoundAllDependentFiles (?u y) \<longrightarrow> hasFoundAllDependentFiles (h3 y)" and
    b4: "\<forall>y. y \<noteq> x \<longrightarrow> \<not> hasFoundAllDependentFiles (h3 y) \<longrightarrow> h3 y = ?u y"
    by blast+
  have "sameFiles h h3"
    by (meson a1 b1 sameFiles_trans sameFiles_ops)
  moreover have "\<forall>y. y \<noteq> x \<longrightarrow> hasFoundAllDependentFiles (h y) \<longrightarrow> h3 y = h y"
    using a2 b2 by (metis ops_other(2,3) ops_flag(2,3))
  moreover have "\<forall>y. hasFoundAllDependentFiles (h y) \<longrightarrow> hasFoundAllDependentFiles (h3 y)"
    using a2 b3 by (metis ops_flag(2,3))
  moreover have "\<forall>y. y \<noteq> x \<longrightarrow> \<not> hasFoundAllDependentFiles (h3 y) \<longrightarrow> h3 y = h y"
    using a5 b3 b4 by (metis ops_other(2,3) ops_flag(2,3))
  ultimately show ?case by blast
qed


lemmas resolves_frame = resolves_frame_aux(1)
lemmas loops_frame = resolves_frame_aux(2)

lemma directIncludes_ops [simp]:
  "directIncludes tbl fs (clearDependentFiles x h) = directIncludes tbl fs h"
  "directIncludes tbl fs (addDependentFile x g h) = directIncludes tbl fs h"
  "directIncludes tbl fs (updateDependentFiles x fo h) = directIncludes tbl fs h"
  "directIncludes tbl fs (setHasFoundAll x h) = directIncludes tbl fs h"
  by (simp_all add: directIncludes_sameFiles)

lemma directIncludes_iff:
  "(x, g) \<in> directIncludes tbl fs h \<longleftrightarrow>
     (\<exists>gs. readIncludedFiles tbl fs (h x) = Inr gs \<and> g \<in> set gs)"
  by (auto simp: directIncludes_def includesDirectly_def split: sum.splits)

subsection \<open>Cycles of unresolved files\<close>

text \<open>A set of unresolved files each of which includes a member of the set.\<close>

definition trap :: "table \<Rightarrow> filesystem \<Rightarrow> heap \<Rightarrow> ref set \<Rightarrow> bool" where
  "trap tbl fs h C \<longleftrightarrow>
     (\<forall>y\<in>C. \<not> hasFoundAllDependentFiles (h y) \<and> (\<exists>g\<in>C. (y, g) \<in> directIncludes tbl fs h))"

lemma trap_ops [simp]:
  "trap tbl fs (clearDependentFiles x h) C = trap tbl fs h C"
  "trap tbl fs (addDependentFile x g h) C = trap tbl fs h C"
  "trap tbl fs (updateDependentFiles x fo h) C = trap tbl fs h C"
  by (simp_all add: trap_def)

lemma resolves_trap_aux:
  "resolves tbl fs x h found h' \<Longrightarrow> trap tbl fs h C \<Longrightarrow> x \<notin> C \<and> trap tbl fs h' C"
  "loops tbl fs x gs h h3 \<Longrightarrow> trap tbl fs h C \<Longrightarrow> set gs \<inter> C = {} \<and> trap tbl fs h3 C"
proof (induction rule: resolves_loops.inducts)
  case (cached h x)
  then show ?case by (auto simp: trap_def)
next
  case (computed h x gs h3)
  from computed have l: "set gs \<inter> C = {}" and t: "trap tbl fs h3 C" by simp_all
  have "x \<notin> C"
  proof
    assume "x \<in> C"
    with computed.prems obtain g where "g \<in> C" "(x, g) \<in> directIncludes tbl fs h"
      by (auto simp: trap_def)
    note this(2)
    then obtain gs' where "readIncludedFiles tbl fs (h x) = Inr gs'" "g \<in> set gs'"
      by (auto simp: directIncludes_iff)
    with computed have "g \<in> set gs" by simp
    with l \<open>g \<in> C\<close> show False by blast
  qed
  with t show ?case by (auto simp: trap_def)
next
  case (finished x h)
  then show ?case by simp
next
  case (step g x h found h2 gs h3)
  then show ?case by simp
qed

lemmas resolves_trap = resolves_trap_aux(1)


subsection \<open>The invariant of the resolved files\<close>

text \<open>
  The state invariant: a resolved file was readable, all files it includes are resolved,
  and its set holds exactly the files reachable over one or more includes.
\<close>

definition consistent :: "table \<Rightarrow> filesystem \<Rightarrow> heap \<Rightarrow> bool" where
  "consistent tbl fs h \<longleftrightarrow>
     (\<forall>y. hasFoundAllDependentFiles (h y) \<longrightarrow>
        (\<exists>gs. readIncludedFiles tbl fs (h y) = Inr gs) \<and>
        (\<forall>g. (y, g) \<in> directIncludes tbl fs h \<longrightarrow> hasFoundAllDependentFiles (h g)) \<and>
        dependentFiles (h y) = (directIncludes tbl fs h)\<^sup>+ `` {y})"

lemma consistent_set_deps:
  assumes "consistent tbl fs h"
    and "sameFiles h h'"
    and "\<And>y. y \<noteq> x \<Longrightarrow> h' y = h y"
    and "hasFoundAllDependentFiles (h' x) = hasFoundAllDependentFiles (h x)"
    and "hasFoundAllDependentFiles (h x) \<Longrightarrow> dependentFiles (h' x) = (directIncludes tbl fs h)\<^sup>+ `` {x}"
  shows "consistent tbl fs h'"
  unfolding consistent_def
proof (intro allI impI)
  fix y assume y: "hasFoundAllDependentFiles (h' y)"
  have E: "directIncludes tbl fs h' = directIncludes tbl fs h"
    using assms(2) by (rule directIncludes_sameFiles)
  have fl: "hasFoundAllDependentFiles (h' z) = hasFoundAllDependentFiles (h z)" for z
    using assms(3,4) by (cases "z = x") simp_all
  have ri: "readIncludedFiles tbl fs (h' y) = readIncludedFiles tbl fs (h y)"
    using assms(2) by (rule readIncludedFiles_sameFiles)
  have d: "dependentFiles (h' y) = (directIncludes tbl fs h)\<^sup>+ `` {y}"
  proof (cases "y = x")
    case True
    with y fl assms(5) show ?thesis by simp
  next
    case False
    with y fl assms(1,3) show ?thesis by (simp add: consistent_def)
  qed
  from y fl assms(1) have
    "\<exists>gs. readIncludedFiles tbl fs (h y) = Inr gs"
    "\<forall>g. (y, g) \<in> directIncludes tbl fs h \<longrightarrow> hasFoundAllDependentFiles (h g)"
    by (simp_all add: consistent_def)
  with d show "(\<exists>gs. readIncludedFiles tbl fs (h' y) = Inr gs) \<and>
        (\<forall>g. (y, g) \<in> directIncludes tbl fs h' \<longrightarrow> hasFoundAllDependentFiles (h' g)) \<and>
        dependentFiles (h' y) = (directIncludes tbl fs h')\<^sup>+ `` {y}"
    by (simp add: E fl ri)
qed

lemma consistent_deps:
  "consistent tbl fs h \<Longrightarrow> hasFoundAllDependentFiles (h y) \<Longrightarrow>
     dependentFiles (h y) = (directIncludes tbl fs h)\<^sup>+ `` {y}"
  by (simp add: consistent_def)

lemma trancl_image_step:
  "(x, g) \<in> E \<Longrightarrow> insert g (E\<^sup>+ `` {g}) \<subseteq> E\<^sup>+ `` {x}"
  by (auto intro: trancl_into_trancl2)

lemma trancl_image_succs:
  assumes "\<And>g. (x, g) \<in> E \<Longrightarrow> g \<in> D \<and> E\<^sup>+ `` {g} \<subseteq> D"
  shows "E\<^sup>+ `` {x} \<subseteq> D"
proof
  fix z assume "z \<in> E\<^sup>+ `` {x}"
  then have "(x, z) \<in> E\<^sup>+" by simp
  then obtain g where g: "(x, g) \<in> E" "(g, z) \<in> E\<^sup>*"
    by (meson tranclD)
  from g(2) have "z = g \<or> (g, z) \<in> E\<^sup>+" by (auto simp: rtrancl_eq_or_trancl)
  with assms[OF g(1)] show "z \<in> D" by auto
qed


lemma consistent_clear:
  "consistent tbl fs h \<Longrightarrow> \<not> hasFoundAllDependentFiles (h x) \<Longrightarrow>
     consistent tbl fs (clearDependentFiles x h)"
  by (rule consistent_set_deps[where x = x and h = h]) simp_all

lemma consistent_add:
  assumes "consistent tbl fs h" "(x, g) \<in> directIncludes tbl fs h"
  shows "consistent tbl fs (addDependentFile x g h)"
proof (rule consistent_set_deps[where x = x and h = h])
  assume "hasFoundAllDependentFiles (h x)"
  with assms(1) have "dependentFiles (h x) = (directIncludes tbl fs h)\<^sup>+ `` {x}"
    by (rule consistent_deps)
  with assms(2) show "dependentFiles (addDependentFile x g h x) = (directIncludes tbl fs h)\<^sup>+ `` {x}"
    by auto
qed (use assms in simp_all)

lemma consistent_update:
  assumes "consistent tbl fs h" "fo \<subseteq> (directIncludes tbl fs h)\<^sup>+ `` {x}"
  shows "consistent tbl fs (updateDependentFiles x fo h)"
proof (rule consistent_set_deps[where x = x and h = h])
  assume "hasFoundAllDependentFiles (h x)"
  with assms(1) have "dependentFiles (h x) = (directIncludes tbl fs h)\<^sup>+ `` {x}"
    by (rule consistent_deps)
  with assms(2) show "dependentFiles (updateDependentFiles x fo h x) = (directIncludes tbl fs h)\<^sup>+ `` {x}"
    by auto
qed (use assms in simp_all)

lemma resolves_consistent_aux:
  "resolves tbl fs x h found h' \<Longrightarrow> consistent tbl fs h \<Longrightarrow> consistent tbl fs h'"
  "loops tbl fs x gs h h3 \<Longrightarrow> consistent tbl fs h \<Longrightarrow>
     dependentFiles (h x) \<subseteq> (directIncludes tbl fs h)\<^sup>+ `` {x} \<Longrightarrow>
     set gs \<subseteq> directIncludes tbl fs h `` {x} \<Longrightarrow>
     consistent tbl fs h3 \<and>
     dependentFiles (h3 x) \<subseteq> (directIncludes tbl fs h)\<^sup>+ `` {x} \<and>
     dependentFiles (h x) \<subseteq> dependentFiles (h3 x) \<and>
     (\<forall>g\<in>set gs. hasFoundAllDependentFiles (h3 g) \<and> g \<in> dependentFiles (h3 x) \<and>
        (directIncludes tbl fs h)\<^sup>+ `` {g} \<subseteq> dependentFiles (h3 x))"
proof (induction rule: resolves_loops.inducts)
  case (cached h x)
  then show ?case by simp
next
  case (computed h x gs h3)
  let ?E = "directIncludes tbl fs h"
  from computed have nf: "\<not> hasFoundAllDependentFiles (h x)"
    and ri: "readIncludedFiles tbl fs (h x) = Inr gs"
    and lp: "loops tbl fs x gs (clearDependentFiles x h) h3"
    and c: "consistent tbl fs h"
    by simp_all
  have gs: "set gs = ?E `` {x}"
    using ri by (auto simp: directIncludes_iff)
  have c0: "consistent tbl fs (clearDependentFiles x h)"
    using c nf by (rule consistent_clear)
  have post: "consistent tbl fs h3"
    "dependentFiles (h3 x) \<subseteq> ?E\<^sup>+ `` {x}"
    "\<forall>g\<in>set gs. hasFoundAllDependentFiles (h3 g) \<and> g \<in> dependentFiles (h3 x) \<and>
        ?E\<^sup>+ `` {g} \<subseteq> dependentFiles (h3 x)"
    using computed.IH(3)[OF c0] gs by simp_all
  have sf: "sameFiles h h3"
    using loops_frame[OF lp] sameFiles_trans[OF sameFiles_ops(1)] by blast
  have E3: "directIncludes tbl fs h3 = ?E"
    using sf by (rule directIncludes_sameFiles)
  have "?E\<^sup>+ `` {x} \<subseteq> dependentFiles (h3 x)"
    by (rule trancl_image_succs) (use post(3) gs in auto)
  with post(2) have d: "dependentFiles (h3 x) = ?E\<^sup>+ `` {x}" by blast
  show ?case
    unfolding consistent_def
  proof (intro allI impI)
    fix y assume y: "hasFoundAllDependentFiles (setHasFoundAll x h3 y)"
    show "(\<exists>gs. readIncludedFiles tbl fs (setHasFoundAll x h3 y) = Inr gs) \<and>
        (\<forall>g. (y, g) \<in> directIncludes tbl fs (setHasFoundAll x h3) \<longrightarrow>
             hasFoundAllDependentFiles (setHasFoundAll x h3 g)) \<and>
        dependentFiles (setHasFoundAll x h3 y) = (directIncludes tbl fs (setHasFoundAll x h3))\<^sup>+ `` {y}"
    proof (cases "y = x")
      case True
      have "readIncludedFiles tbl fs (setHasFoundAll x h3 x) = Inr gs"
        using ri readIncludedFiles_sameFiles[OF sameFiles_trans[OF sf sameFiles_ops(4)], of tbl fs x x]
        by simp
      moreover have "\<forall>g. (x, g) \<in> ?E \<longrightarrow> hasFoundAllDependentFiles (setHasFoundAll x h3 g)"
        using post(3) gs by auto
      ultimately show ?thesis using True d by (simp add: E3)
    next
      case False
      with y have "hasFoundAllDependentFiles (h3 y)" by simp
      with post(1) have
        "\<exists>gs. readIncludedFiles tbl fs (h3 y) = Inr gs"
        "\<forall>g. (y, g) \<in> ?E \<longrightarrow> hasFoundAllDependentFiles (h3 g)"
        "dependentFiles (h3 y) = ?E\<^sup>+ `` {y}"
        by (simp_all add: consistent_def E3)
      with False show ?thesis by (simp add: E3)
    qed
  qed
next
  case (finished x h)
  then show ?case by simp
next
  case (step g x h found h2 gs h3)
  let ?E = "directIncludes tbl fs h"
  let ?h1 = "addDependentFile x g h" and ?u = "updateDependentFiles x found h2"
  from step have r: "resolves tbl fs g ?h1 found h2"
    and c: "consistent tbl fs h"
    and dx: "dependentFiles (h x) \<subseteq> ?E\<^sup>+ `` {x}"
    and xg: "(x, g) \<in> ?E" and gs: "set gs \<subseteq> ?E `` {x}"
    by simp_all
  have c1: "consistent tbl fs ?h1" using c xg by (rule consistent_add)
  have c2: "consistent tbl fs h2" using step.IH(2)[OF c1] .
  note fr = resolves_frame[OF r]
  have E2: "directIncludes tbl fs h2 = ?E"
    using fr directIncludes_sameFiles[of ?h1 h2 tbl fs] by simp
  have fg: "hasFoundAllDependentFiles (h2 g)" using fr by simp
  have found: "found = ?E\<^sup>+ `` {g}"
    using fr consistent_deps[OF c2 fg] by (simp add: E2)
  have gx: "insert g (?E\<^sup>+ `` {g}) \<subseteq> ?E\<^sup>+ `` {x}"
    using xg by (rule trancl_image_step)
  have d2: "dependentFiles (h2 x) \<subseteq> ?E\<^sup>+ `` {x} \<and> insert g (dependentFiles (h x)) \<subseteq> dependentFiles (h2 x)"
  proof (cases "hasFoundAllDependentFiles (h2 x)")
    case True
    then have "dependentFiles (h2 x) = ?E\<^sup>+ `` {x}"
      using consistent_deps[OF c2] by (simp add: E2)
    with dx gx show ?thesis by auto
  next
    case False
    with fr have "h2 x = ?h1 x" by simp
    with dx gx show ?thesis by auto
  qed
  have c3: "consistent tbl fs ?u"
    by (rule consistent_update[OF c2]) (use gx found in \<open>auto simp: E2\<close>)
  have d3: "dependentFiles (?u x) \<subseteq> (directIncludes tbl fs ?u)\<^sup>+ `` {x}"
    using d2 gx found by (auto simp: E2)
  have gs3: "set gs \<subseteq> directIncludes tbl fs ?u `` {x}"
    using gs by (simp add: E2)
  from step.IH(4)[OF c3 d3 gs3] have post:
    "consistent tbl fs h3"
    "dependentFiles (h3 x) \<subseteq> ?E\<^sup>+ `` {x}"
    "dependentFiles (?u x) \<subseteq> dependentFiles (h3 x)"
    "\<forall>g\<in>set gs. hasFoundAllDependentFiles (h3 g) \<and> g \<in> dependentFiles (h3 x) \<and>
        ?E\<^sup>+ `` {g} \<subseteq> dependentFiles (h3 x)"
    by (simp_all add: E2)
  have "hasFoundAllDependentFiles (h3 g)"
    using loops_frame[OF step.IH(3)] fg by simp
  moreover have "insert g (dependentFiles (h x)) \<union> ?E\<^sup>+ `` {g} \<subseteq> dependentFiles (h3 x)"
    using post(3) d2 found by auto
  ultimately show ?case using post by auto
qed

lemmas resolves_consistent = resolves_consistent_aux(1)

subsection \<open>The state after a returning call\<close>

lemma resolves_reach_aux:
  "resolves tbl fs x h found h' \<Longrightarrow>
     \<forall>y. hasFoundAllDependentFiles (h' y) \<longrightarrow>
       hasFoundAllDependentFiles (h y) \<or> (x, y) \<in> (directIncludes tbl fs h)\<^sup>*"
  "loops tbl fs x gs h h3 \<Longrightarrow>
     \<forall>y. hasFoundAllDependentFiles (h3 y) \<longrightarrow>
       hasFoundAllDependentFiles (h y) \<or> (\<exists>g\<in>set gs. (g, y) \<in> (directIncludes tbl fs h)\<^sup>*)"
proof (induction rule: resolves_loops.inducts)
  case (cached h x)
  then show ?case by simp
next
  case (computed h x gs h3)
  let ?E = "directIncludes tbl fs h"
  from computed have ri: "readIncludedFiles tbl fs (h x) = Inr gs" by simp
  have gs: "\<And>g. g \<in> set gs \<Longrightarrow> (x, g) \<in> ?E"
    using ri by (auto simp: directIncludes_iff)
  show ?case
  proof (intro allI impI)
    fix y assume y: "hasFoundAllDependentFiles (setHasFoundAll x h3 y)"
    show "hasFoundAllDependentFiles (h y) \<or> (x, y) \<in> ?E\<^sup>*"
    proof (cases "y = x")
      case False
      with y have "hasFoundAllDependentFiles (h3 y)" by simp
      with computed.IH(3) have
        "hasFoundAllDependentFiles (h y) \<or> (\<exists>g\<in>set gs. (g, y) \<in> ?E\<^sup>*)"
        by simp
      then show ?thesis using gs by (meson converse_rtrancl_into_rtrancl)
    qed simp
  qed
next
  case (finished x h)
  then show ?case by simp
next
  case (step g x h found h2 gs h3)
  let ?E = "directIncludes tbl fs h"
  have E2: "directIncludes tbl fs h2 = ?E"
    using resolves_frame[OF step.IH(1)] directIncludes_sameFiles[of "addDependentFile x g h" h2 tbl fs]
    by simp
  show ?case
  proof (intro allI impI)
    fix y assume "hasFoundAllDependentFiles (h3 y)"
    with step.IH(4) have "hasFoundAllDependentFiles (h2 y) \<or> (\<exists>g\<in>set gs. (g, y) \<in> ?E\<^sup>*)"
      by (simp add: E2)
    moreover have "hasFoundAllDependentFiles (h2 y) \<Longrightarrow>
        hasFoundAllDependentFiles (h y) \<or> (g, y) \<in> ?E\<^sup>*"
      using step.IH(2) by simp
    ultimately show "hasFoundAllDependentFiles (h y) \<or> (\<exists>g\<in>set (g # gs). (g, y) \<in> ?E\<^sup>*)"
      by auto
  qed
qed

lemmas resolves_reach = resolves_reach_aux(1)

lemma consistent_reach:
  assumes "consistent tbl fs h" "hasFoundAllDependentFiles (h x)"
    and "(x, y) \<in> (directIncludes tbl fs h)\<^sup>*"
  shows "hasFoundAllDependentFiles (h y)"
  using assms(3,2) by (induction rule: rtrancl_induct) (use assms(1) in \<open>auto simp: consistent_def\<close>)

text \<open>The state after resolving the files of \<open>S\<close>, as a function of the state before.\<close>

definition resolved :: "table \<Rightarrow> filesystem \<Rightarrow> heap \<Rightarrow> ref set \<Rightarrow> heap" where
  "resolved tbl fs h S =
     (\<lambda>y. if \<not> hasFoundAllDependentFiles (h y) \<and> y \<in> (directIncludes tbl fs h)\<^sup>* `` S
          then (h y)\<lparr>hasFoundAllDependentFiles := True,
                      dependentFiles := (directIncludes tbl fs h)\<^sup>+ `` {y}\<rparr>
          else h y)"

lemma sameFiles_resolved [simp]: "sameFiles h (resolved tbl fs h S)"
  by (simp add: sameFiles_def resolved_def)

lemma directIncludes_resolved [simp]:
  "directIncludes tbl fs (resolved tbl fs h S) = directIncludes tbl fs h"
  by (simp add: directIncludes_sameFiles)

lemma resolved_empty [simp]: "resolved tbl fs h {} = h"
  by (simp add: resolved_def)

lemma resolved_flag:
  "hasFoundAllDependentFiles (resolved tbl fs h S y) \<longleftrightarrow>
     hasFoundAllDependentFiles (h y) \<or> y \<in> (directIncludes tbl fs h)\<^sup>* `` S"
  by (simp add: resolved_def)

lemma resolved_resolved:
  "resolved tbl fs (resolved tbl fs h S) T = resolved tbl fs h (S \<union> T)"
proof
  fix y
  let ?E = "directIncludes tbl fs h"
  have eq: "resolved tbl fs (resolved tbl fs h S) T y =
      (if \<not> hasFoundAllDependentFiles (resolved tbl fs h S y) \<and> y \<in> ?E\<^sup>* `` T
       then (resolved tbl fs h S y)\<lparr>hasFoundAllDependentFiles := True, dependentFiles := ?E\<^sup>+ `` {y}\<rparr>
       else resolved tbl fs h S y)"
    by (subst resolved_def) simp
  have un: "?E\<^sup>* `` (S \<union> T) = ?E\<^sup>* `` S \<union> ?E\<^sup>* `` T" by blast
  show "resolved tbl fs (resolved tbl fs h S) T y = resolved tbl fs h (S \<union> T) y"
  proof (cases "hasFoundAllDependentFiles (h y) \<or> y \<in> ?E\<^sup>* `` S")
    case True
    then have "resolved tbl fs (resolved tbl fs h S) T y = resolved tbl fs h S y"
      unfolding eq by (simp add: resolved_flag)
    also have "\<dots> = resolved tbl fs h (S \<union> T) y"
      using True unfolding resolved_def un by auto
    finally show ?thesis .
  next
    case False
    then have "resolved tbl fs h S y = h y" by (simp add: resolved_def)
    with False show ?thesis
      unfolding eq resolved_flag unfolding resolved_def un by simp
  qed
qed

lemma resolves_resolved:
  assumes r: "resolves tbl fs x h found h'" and c: "consistent tbl fs h"
  shows "h' = resolved tbl fs h {x}"
proof
  fix y
  let ?E = "directIncludes tbl fs h"
  from resolves_frame[OF r] have
    sf: "sameFiles h h'" and
    old: "\<And>y. hasFoundAllDependentFiles (h y) \<Longrightarrow> h' y = h y" and
    fx: "hasFoundAllDependentFiles (h' x)" and
    untouched: "\<And>y. \<not> hasFoundAllDependentFiles (h' y) \<Longrightarrow> h' y = h y"
    by blast+
  have c': "consistent tbl fs h'" using r c by (rule resolves_consistent)
  have E': "directIncludes tbl fs h' = ?E"
    using sf by (rule directIncludes_sameFiles)
  show "h' y = resolved tbl fs h {x} y"
  proof (cases "hasFoundAllDependentFiles (h y)")
    case True
    then show ?thesis by (simp add: resolved_def old[OF True])
  next
    case nf: False
    show ?thesis
    proof (cases "hasFoundAllDependentFiles (h' y)")
      case True
      with resolves_reach[OF r] nf have xy: "(x, y) \<in> ?E\<^sup>*" by blast
      have d: "dependentFiles (h' y) = ?E\<^sup>+ `` {y}"
        using consistent_deps[OF c' True] by (simp add: E')
      have "resolved tbl fs h {x} y =
          (h y)\<lparr>hasFoundAllDependentFiles := True, dependentFiles := ?E\<^sup>+ `` {y}\<rparr>"
        using nf xy by (simp add: resolved_def)
      moreover have "h' y = (h y)\<lparr>hasFoundAllDependentFiles := True, dependentFiles := ?E\<^sup>+ `` {y}\<rparr>"
        using sf True d by (intro CodeFile.equality) (simp_all add: sameFiles_def)
      ultimately show ?thesis by simp
    next
      case False
      have "(x, y) \<notin> ?E\<^sup>*"
        using consistent_reach[OF c' fx, of y] False by (auto simp: E')
      then show ?thesis using nf by (simp add: resolved_def untouched[OF False])
    qed
  qed
qed

subsection \<open>The loop over all files\<close>

lemma resolveAll_Nil [simp]: "resolveAll tbl fs [] h = Some (Inr h)"
  by (simp add: resolveAll_def)

lemma resolveAll_Cons:
  "resolveAll tbl fs (x # xs) h =
     bindE (findDependentFiles tbl fs x h) (\<lambda>(found, h1). resolveAll tbl fs xs h1)"
  by (cases "findDependentFiles tbl fs x h" rule: option.exhaust; simp add: resolveAll_def)
     (auto simp: bindE_def split: sum.splits)

lemma resolveAll_Cons_iff:
  "resolveAll tbl fs (x # xs) h = Some (Inr h') \<longleftrightarrow>
     (\<exists>found h1. resolves tbl fs x h found h1 \<and> resolveAll tbl fs xs h1 = Some (Inr h'))"
  by (auto simp: resolveAll_Cons bindE_eq_Some_Inr findDependentFiles_iff)

lemma resolveAll_resolved:
  "resolveAll tbl fs xs h = Some (Inr h') \<Longrightarrow> consistent tbl fs h \<Longrightarrow>
     h' = resolved tbl fs h (set xs) \<and> consistent tbl fs h'"
proof (induction xs arbitrary: h)
  case Nil
  then show ?case by simp
next
  case (Cons x xs)
  from Cons.prems(1) obtain found h1 where
    r: "resolves tbl fs x h found h1" and rest: "resolveAll tbl fs xs h1 = Some (Inr h')"
    by (auto simp: resolveAll_Cons_iff)
  have h1: "h1 = resolved tbl fs h {x}" using r Cons.prems(2) by (rule resolves_resolved)
  have c1: "consistent tbl fs h1" using r Cons.prems(2) by (rule resolves_consistent)
  from Cons.IH[OF rest c1] have "h' = resolved tbl fs h1 (set xs)" and c': "consistent tbl fs h'"
    by blast+
  then have "h' = resolved tbl fs h (set (x # xs))"
    by (simp add: h1 resolved_resolved)
  with c' show ?case by blast
qed

lemma resolveAll_trap:
  "resolveAll tbl fs xs h = Some (Inr h') \<Longrightarrow> trap tbl fs h C \<Longrightarrow> trap tbl fs h' C"
proof (induction xs arbitrary: h)
  case Nil
  then show ?case by simp
next
  case (Cons x xs)
  from Cons.prems(1) obtain found h1 where
    r: "resolves tbl fs x h found h1" and rest: "resolveAll tbl fs xs h1 = Some (Inr h')"
    by (auto simp: resolveAll_Cons_iff)
  from resolves_trap[OF r Cons.prems(2)] have "trap tbl fs h1 C" by simp
  with rest show ?case by (rule Cons.IH)
qed

subsection \<open>When a call returns\<close>

text \<open>A later state of the same run: the same files, and no file has lost its flag.\<close>

definition laterState :: "heap \<Rightarrow> heap \<Rightarrow> bool" where
  "laterState h0 h \<longleftrightarrow>
     sameFiles h0 h \<and> (\<forall>y. hasFoundAllDependentFiles (h0 y) \<longrightarrow> hasFoundAllDependentFiles (h y))"

lemma laterState_refl [simp]: "laterState h h"
  by (simp add: laterState_def)

lemma laterState_ops:
  "laterState h0 h \<Longrightarrow> laterState h0 (clearDependentFiles x h)"
  "laterState h0 h \<Longrightarrow> laterState h0 (addDependentFile x g h)"
  "laterState h0 h \<Longrightarrow> laterState h0 (updateDependentFiles x fo h)"
  by (auto simp: laterState_def intro: sameFiles_trans)

lemma laterState_resolves:
  assumes "laterState h0 h" "resolves tbl fs x h found h'"
  shows "laterState h0 h'"
proof -
  from resolves_frame[OF assms(2)] have
    sf: "sameFiles h h'" and old: "\<And>y. hasFoundAllDependentFiles (h y) \<Longrightarrow> h' y = h y"
    by blast+
  show ?thesis
    unfolding laterState_def
  proof (intro conjI allI impI)
    show "sameFiles h0 h'" using assms(1) sf by (auto simp: laterState_def intro: sameFiles_trans)
  next
    fix y assume "hasFoundAllDependentFiles (h0 y)"
    with assms(1) have "hasFoundAllDependentFiles (h y)" by (simp add: laterState_def)
    then show "hasFoundAllDependentFiles (h' y)" using old[of y] by simp
  qed
qed

text \<open>The includes between files of \<open>W\<close> that are both unresolved, reversed.\<close>

definition pending :: "table \<Rightarrow> filesystem \<Rightarrow> heap \<Rightarrow> ref set \<Rightarrow> (ref \<times> ref) set" where
  "pending tbl fs h0 W =
     {(g, y). y \<in> W \<and> \<not> hasFoundAllDependentFiles (h0 y) \<and>
              \<not> hasFoundAllDependentFiles (h0 g) \<and> (y, g) \<in> directIncludes tbl fs h0}"

lemma resolves_exists:
  assumes wf: "wf (pending tbl fs h0 W)"
    and closed: "\<And>y g. y \<in> W \<Longrightarrow> (y, g) \<in> directIncludes tbl fs h0 \<Longrightarrow> g \<in> W"
    and readable: "\<And>y. y \<in> W \<Longrightarrow> \<not> hasFoundAllDependentFiles (h0 y) \<Longrightarrow>
                     \<exists>gs. readIncludedFiles tbl fs (h0 y) = Inr gs"
  shows "x \<in> W \<Longrightarrow> laterState h0 h \<Longrightarrow> \<exists>found h'. resolves tbl fs x h found h'"
  using wf
proof (induction x arbitrary: h rule: wf_induct_rule)
  case (less x)
  show ?case
  proof (cases "hasFoundAllDependentFiles (h x)")
    case True
    then show ?thesis by (blast intro: cached)
  next
    case False
    with less.prems(2) have nf0: "\<not> hasFoundAllDependentFiles (h0 x)"
      by (auto simp: laterState_def)
    from readable[OF less.prems(1) nf0] obtain gs where
      ri0: "readIncludedFiles tbl fs (h0 x) = Inr gs" by blast
    have ri: "readIncludedFiles tbl fs (h x) = Inr gs"
      using ri0 less.prems(2) readIncludedFiles_sameFiles[of h0 h tbl fs x]
      by (simp add: laterState_def)
    have loop: "set gs' \<subseteq> set gs \<Longrightarrow> laterState h0 h1 \<Longrightarrow> \<exists>h3. loops tbl fs x gs' h1 h3"
      for gs' h1
    proof (induction gs' arbitrary: h1)
      case Nil
      show ?case by (blast intro: finished)
    next
      case (Cons g gs')
      let ?h1 = "addDependentFile x g h1"
      have l1: "laterState h0 ?h1" using Cons.prems(2) by (rule laterState_ops)
      have xg: "(x, g) \<in> directIncludes tbl fs h0"
        using Cons.prems(1) ri0 by (auto simp: directIncludes_iff)
      have gW: "g \<in> W" using less.prems(1) xg by (rule closed)
      have "\<exists>found h2. resolves tbl fs g ?h1 found h2"
      proof (cases "hasFoundAllDependentFiles (h0 g)")
        case True
        with l1 have "hasFoundAllDependentFiles (?h1 g)" by (simp add: laterState_def)
        then show ?thesis by (blast intro: cached)
      next
        case False
        with nf0 xg less.prems(1) have "(g, x) \<in> pending tbl fs h0 W" by (simp add: pending_def)
        then show ?thesis using gW l1 by (rule less.IH)
      qed
      then obtain found h2 where r2: "resolves tbl fs g ?h1 found h2" by blast
      have "laterState h0 (updateDependentFiles x found h2)"
        using laterState_resolves[OF l1 r2] by (rule laterState_ops)
      with Cons.IH Cons.prems(1) obtain h3 where
        "loops tbl fs x gs' (updateDependentFiles x found h2) h3" by auto
      with r2 show ?case by (blast intro: step)
    qed
    have "\<exists>h3. loops tbl fs x gs (clearDependentFiles x h) h3"
      by (rule loop) (use less.prems(2) laterState_ops in auto)
    with False ri show ?thesis by (blast intro: computed)
  qed
qed

lemma resolveAll_exists:
  assumes wf: "wf (pending tbl fs h0 W)"
    and closed: "\<And>y g. y \<in> W \<Longrightarrow> (y, g) \<in> directIncludes tbl fs h0 \<Longrightarrow> g \<in> W"
    and readable: "\<And>y. y \<in> W \<Longrightarrow> \<not> hasFoundAllDependentFiles (h0 y) \<Longrightarrow>
                     \<exists>gs. readIncludedFiles tbl fs (h0 y) = Inr gs"
  shows "set ys \<subseteq> W \<Longrightarrow> laterState h0 h \<Longrightarrow> \<exists>h'. resolveAll tbl fs ys h = Some (Inr h')"
proof (induction ys arbitrary: h)
  case Nil
  show ?case by simp
next
  case (Cons y ys)
  from Cons.prems have "y \<in> W" by simp
  with wf closed readable have "\<exists>found h1. resolves tbl fs y h found h1"
    using Cons.prems(2) by (rule resolves_exists)
  then obtain found h1 where r: "resolves tbl fs y h found h1" by blast
  have "laterState h0 h1" using Cons.prems(2) r by (rule laterState_resolves)
  with Cons.IH Cons.prems(1) obtain h' where "resolveAll tbl fs ys h1 = Some (Inr h')" by auto
  with r show ?case by (auto simp: resolveAll_Cons_iff)
qed

lemma resolveAll_pending_wf:
  assumes run: "resolveAll tbl fs xs h0 = Some (Inr h1)" and c: "consistent tbl fs h0"
  shows "wf (pending tbl fs h0 ((directIncludes tbl fs h0)\<^sup>* `` set xs))"
proof (rule wfI_min)
  let ?E = "directIncludes tbl fs h0"
  let ?W = "?E\<^sup>* `` set xs"
  fix x :: ref and Q assume xQ: "x \<in> Q"
  show "\<exists>z\<in>Q. \<forall>y. (y, z) \<in> pending tbl fs h0 ?W \<longrightarrow> y \<notin> Q"
  proof (rule ccontr)
    assume "\<not> ?thesis"
    then have stuck: "\<forall>z\<in>Q. \<exists>y\<in>Q. (y, z) \<in> pending tbl fs h0 ?W" by blast
    then have "trap tbl fs h0 Q"
      unfolding trap_def pending_def by blast
    with run have "trap tbl fs h1 Q" by (rule resolveAll_trap)
    with xQ have nf: "\<not> hasFoundAllDependentFiles (h1 x)" by (simp add: trap_def)
    from stuck xQ have "x \<in> ?W" unfolding pending_def by blast
    moreover have "h1 = resolved tbl fs h0 (set xs)"
      using resolveAll_resolved[OF run c] by simp
    ultimately have "hasFoundAllDependentFiles (h1 x)" by (simp add: resolved_flag)
    with nf show False by simp
  qed
qed

lemma resolveAll_readable:
  assumes run: "resolveAll tbl fs xs h0 = Some (Inr h1)" and c: "consistent tbl fs h0"
    and y: "y \<in> (directIncludes tbl fs h0)\<^sup>* `` set xs"
  shows "\<exists>gs. readIncludedFiles tbl fs (h0 y) = Inr gs"
proof -
  from resolveAll_resolved[OF run c] have
    h1: "h1 = resolved tbl fs h0 (set xs)" and c1: "consistent tbl fs h1" by blast+
  from y have "hasFoundAllDependentFiles (h1 y)" by (simp add: h1 resolved_flag)
  with c1 obtain gs where "readIncludedFiles tbl fs (h1 y) = Inr gs"
    by (auto simp: consistent_def)
  moreover have "readIncludedFiles tbl fs (h1 y) = readIncludedFiles tbl fs (h0 y)"
    unfolding h1 by (rule readIncludedFiles_sameFiles) simp
  ultimately show ?thesis by simp
qed

lemma resolveAll_same_set:
  assumes run: "resolveAll tbl fs xs h0 = Some (Inr h1)" and c: "consistent tbl fs h0"
    and same: "set ys = set xs"
  shows "resolveAll tbl fs ys h0 = Some (Inr h1)"
proof -
  let ?W = "(directIncludes tbl fs h0)\<^sup>* `` set xs"
  have "\<exists>h'. resolveAll tbl fs ys h0 = Some (Inr h')"
  proof (rule resolveAll_exists[where W = ?W and ?h0.0 = h0])
    show "wf (pending tbl fs h0 ?W)" using run c by (rule resolveAll_pending_wf)
  next
    fix y g assume "y \<in> ?W" "(y, g) \<in> directIncludes tbl fs h0"
    then show "g \<in> ?W" by (auto intro: rtrancl_into_rtrancl)
  next
    fix y assume "y \<in> ?W"
    then show "\<exists>gs. readIncludedFiles tbl fs (h0 y) = Inr gs"
      using resolveAll_readable[OF run c] by blast
  next
    show "set ys \<subseteq> ?W" using same by auto
  qed simp
  then obtain h' where run': "resolveAll tbl fs ys h0 = Some (Inr h')" by blast
  from resolveAll_resolved[OF run' c] resolveAll_resolved[OF run c] same
  have "h' = h1" by simp
  with run' show ?thesis by simp
qed

lemma consistent_initialHeap [simp]: "consistent tbl fs (initialHeap names)"
  by (simp add: consistent_def initialHeap_def CodeFile_init_def split: prod.splits)

lemma initialHeap_unresolved [simp]: "\<not> hasFoundAllDependentFiles (initialHeap names x)"
  by (simp add: initialHeap_def CodeFile_init_def split: prod.splits)

lemma resolveAll_sameFiles:
  "resolveAll tbl fs xs h = Some (Inr h') \<Longrightarrow> sameFiles h h'"
proof (induction xs arbitrary: h)
  case Nil
  then show ?case by simp
next
  case (Cons x xs)
  from Cons.prems obtain found h1 where
    r: "resolves tbl fs x h found h1" and rest: "resolveAll tbl fs xs h1 = Some (Inr h')"
    by (auto simp: resolveAll_Cons_iff)
  from resolves_frame[OF r] have "sameFiles h h1" by blast
  with Cons.IH[OF rest] show ?case by (rule sameFiles_trans[rotated])
qed

lemma resolveAll_keeps_resolved:
  "resolveAll tbl fs xs h = Some (Inr h') \<Longrightarrow> hasFoundAllDependentFiles (h f) \<Longrightarrow> h' f = h f"
proof (induction xs arbitrary: h)
  case Nil
  then show ?case by simp
next
  case (Cons x xs)
  from Cons.prems(1) obtain found h1 where
    r: "resolves tbl fs x h found h1" and rest: "resolveAll tbl fs xs h1 = Some (Inr h')"
    by (auto simp: resolveAll_Cons_iff)
  from resolves_frame[OF r] Cons.prems(2) have eq: "h1 f = h f" by blast
  with Cons.prems(2) have "hasFoundAllDependentFiles (h1 f)" by simp
  from Cons.IH[OF rest this] eq show ?case by simp
qed

subsection \<open>The set a returning call computes\<close>

text \<open>What a returning call computes, in a state that a run of \<open>main\<close>'s loop reaches.\<close>

lemma findDependentFiles_closure:
  assumes c: "consistent tbl fs h"
    and call: "findDependentFiles tbl fs x h = Some (Inr (found, h'))"
  shows "found = (directIncludes tbl fs h)\<^sup>+ `` {x}"
    and "dependentFiles (h' x) = found"
    and "consistent tbl fs h'"
    and "directIncludes tbl fs h' = directIncludes tbl fs h"
proof -
  from call have r: "resolves tbl fs x h found h'" by (simp add: findDependentFiles_iff)
  from resolves_frame[OF r] have sf: "sameFiles h h'" and fx: "hasFoundAllDependentFiles (h' x)"
    and fo: "found = dependentFiles (h' x)" by blast+
  show c': "consistent tbl fs h'" using r c by (rule resolves_consistent)
  show E: "directIncludes tbl fs h' = directIncludes tbl fs h"
    using sf by (rule directIncludes_sameFiles)
  show "dependentFiles (h' x) = found" using fo by simp
  show "found = (directIncludes tbl fs h)\<^sup>+ `` {x}"
    using consistent_deps[OF c' fx] fo E by simp
qed

lemma cycle_trap:
  assumes cyc: "(x, x) \<in> E\<^sup>+"
  shows "\<forall>y\<in>{y. (x, y) \<in> E\<^sup>* \<and> (y, x) \<in> E\<^sup>+}. \<exists>g\<in>{y. (x, y) \<in> E\<^sup>* \<and> (y, x) \<in> E\<^sup>+}. (y, g) \<in> E"
proof
  fix y assume "y \<in> {y. (x, y) \<in> E\<^sup>* \<and> (y, x) \<in> E\<^sup>+}"
  then have xy: "(x, y) \<in> E\<^sup>*" and yx: "(y, x) \<in> E\<^sup>+" by simp_all
  from yx obtain g where yg: "(y, g) \<in> E" and gx: "(g, x) \<in> E\<^sup>*" by (meson tranclD)
  have "(x, g) \<in> E\<^sup>*" using xy yg by (rule rtrancl_into_rtrancl)
  moreover have "(g, x) \<in> E\<^sup>+"
    using gx cyc by (auto simp: rtrancl_eq_or_trancl)
  ultimately show "\<exists>g\<in>{y. (x, y) \<in> E\<^sup>* \<and> (y, x) \<in> E\<^sup>+}. (y, g) \<in> E"
    using yg by blast
qed


subsection \<open>Acyclic projects are resolved\<close>

lemma acyclic_returns:
  assumes fin: "finite W"
    and closed: "\<And>y g. y \<in> W \<Longrightarrow> (y, g) \<in> directIncludes tbl fs h0 \<Longrightarrow> g \<in> W"
    and acyc: "acyclic (directIncludes tbl fs h0 \<inter> W \<times> W)"
    and readable: "\<And>y. y \<in> W \<Longrightarrow> \<exists>gs. readIncludedFiles tbl fs (h0 y) = Inr gs"
    and x: "x \<in> W"
  shows "\<exists>found h'. findDependentFiles tbl fs x h0 = Some (Inr (found, h'))"
proof -
  let ?E = "directIncludes tbl fs h0 \<inter> W \<times> W"
  have "finite ?E" using fin by simp
  then have "wf (?E\<inverse>)"
    using acyc by (simp add: finite_acyclic_wf_converse)
  moreover have "pending tbl fs h0 W \<subseteq> ?E\<inverse>"
    using closed by (auto simp: pending_def)
  ultimately have "wf (pending tbl fs h0 W)" by (rule wf_subset)
  then have "\<exists>found h'. resolves tbl fs x h0 found h'"
    using closed readable x by (rule resolves_exists) simp_all
  then show ?thesis by (simp add: findDependentFiles_iff)
qed

subsection \<open>Lines that name a missing file\<close>








subsection \<open>Unbounded recursion\<close>

text \<open>
  A set of unresolved, readable files in which the first include of every member is a
  member again: a call on a member recurses into a member before anything else can happen.
\<close>

definition firstTrap :: "table \<Rightarrow> filesystem \<Rightarrow> heap \<Rightarrow> ref set \<Rightarrow> bool" where
  "firstTrap tbl fs h C \<longleftrightarrow>
     (\<forall>y\<in>C. \<not> hasFoundAllDependentFiles (h y) \<and>
        (\<exists>g gs. readIncludedFiles tbl fs (h y) = Inr (g # gs) \<and> g \<in> C))"

lemma readIncludedFiles_ops [simp]:
  "readIncludedFiles tbl fs (clearDependentFiles x h y) = readIncludedFiles tbl fs (h y)"
  "readIncludedFiles tbl fs (addDependentFile x g h y) = readIncludedFiles tbl fs (h y)"
  by (rule readIncludedFiles_sameFiles, simp)+

lemma firstTrap_ops [simp]:
  "firstTrap tbl fs (clearDependentFiles x h) C = firstTrap tbl fs h C"
  "firstTrap tbl fs (addDependentFile x g h) C = firstTrap tbl fs h C"
  by (simp_all add: firstTrap_def)

lemma bindE_eq_Some: "bindE m k = Some r \<Longrightarrow> \<exists>r'. m = Some r'"
  by (cases m) simp_all

lemma findDependentFiles_firstTrap_aux:
  assumes call: "findDependentFiles tbl fs x h = Some res"
  shows "\<forall>C. firstTrap tbl fs h C \<longrightarrow> x \<notin> C"
proof (rule findDependentFiles.raw_induct
    [where P = "\<lambda>tbl fs x h res. \<forall>C. firstTrap tbl fs h C \<longrightarrow> x \<notin> C", OF _ call])
  fix f :: "table \<Rightarrow> filesystem \<Rightarrow> ref \<Rightarrow> heap \<Rightarrow> (ref set \<times> heap) outcome"
    and tbl fs x h res
  assume ih: "\<And>tbl fs x h res. f tbl fs x h = Some res \<Longrightarrow> \<forall>C. firstTrap tbl fs h C \<longrightarrow> x \<notin> C"
  assume body: "(if hasFoundAllDependentFiles (h x) then Some (Inr (dependentFiles (h x), h))
     else
       (case readIncludedFiles tbl fs (h x) of
          Inl e \<Rightarrow> Some (Inl e)
        | Inr includedFiles \<Rightarrow>
            bindE (for_each includedFiles (loopBody f tbl fs x) (clearDependentFiles x h))
              (\<lambda>h3. Some (Inr (dependentFiles (h3 x), setHasFoundAll x h3))))) = Some res"
  show "\<forall>C. firstTrap tbl fs h C \<longrightarrow> x \<notin> C"
  proof (intro allI impI notI)
    fix C assume t: "firstTrap tbl fs h C" and xC: "x \<in> C"
    then obtain g gs where nf: "\<not> hasFoundAllDependentFiles (h x)"
      and ri: "readIncludedFiles tbl fs (h x) = Inr (g # gs)" and gC: "g \<in> C"
      by (auto simp: firstTrap_def)
    let ?h1 = "addDependentFile x g (clearDependentFiles x h)"
    from body nf ri obtain r1 where
      "for_each (g # gs) (loopBody f tbl fs x) (clearDependentFiles x h) = Some r1"
      by (auto dest: bindE_eq_Some)
    then obtain r2 where "f tbl fs g ?h1 = Some r2"
      by (auto dest!: bindE_eq_Some)
    from ih[OF this] t have "g \<notin> C" by simp
    with gC show False by simp
  qed
qed

lemma findDependentFiles_diverges:
  "firstTrap tbl fs h C \<Longrightarrow> x \<in> C \<Longrightarrow> findDependentFiles tbl fs x h = None"
  using findDependentFiles_firstTrap_aux by (cases "findDependentFiles tbl fs x h") blast+

section \<open>Base names\<close>

lemma basename_undotted_stem:
  "CHR ''.'' \<notin> set stem \<Longrightarrow> basename (CodeFile_init r p (stem @ CHR ''.'' # ext)) = stem"
  by (simp add: CodeFile_init_def hd_split_no_sep)

text \<open>
  C7: the base name of a discovered file is its filename with only the final extension
  removed, also when the stem contains dots. The constructor takes the text before the
  FIRST dot instead: for \<open>a.b.cpp\<close> the base name is \<open>a\<close>, not \<open>a.b\<close>, and the
  compile rule, which names the source as base name plus \<open>.cpp\<close>, then names
  \<open>a.cpp\<close>, a file that does not exist.
\<close>

theorem basename_dotted_stem:
  "basename (CodeFile_init r p ''a.b.cpp'') = ''a'' \<and>
   basename (CodeFile_init r p ''a.b.cpp'') \<noteq> ''a.b'' \<and>
   basename (CodeFile_init r p ''a.b.cpp'') @ ''.cpp'' \<noteq> filename (CodeFile_init r p ''a.b.cpp'')"
  by (simp add: CodeFile_init_def)

section \<open>Properties of the resolver\<close>

lemmas project_defs =
  readIncludedFiles_def initialHeap_def CodeFile_init_def quoted_def
  chainNames_def chainTable_def chainFiles_def cycleNames_def cycleTable_def cycleFiles_def
  startswith_def find_char_def strip_def isspace_def

lemmas heap_defs =
  clearDependentFiles_def addDependentFile_def updateDependentFiles_def setHasFoundAll_def

lemma chain_includes:
  "readIncludedFiles chainTable chainFiles (initialHeap chainNames 0) = Inr [1]"
  "readIncludedFiles chainTable chainFiles (initialHeap chainNames (Suc 0)) = Inr [2]"
  "readIncludedFiles chainTable chainFiles (initialHeap chainNames 2) = Inr []"
  by (simp_all add: project_defs)

lemma cycle_includes:
  "readIncludedFiles cycleTable cycleFiles (initialHeap cycleNames 0) = Inr [1]"
  "readIncludedFiles cycleTable cycleFiles (initialHeap cycleNames (Suc 0)) = Inr [0]"
  by (simp_all add: project_defs)

lemma chain_run:
  "\<exists>h. resolveAll chainTable chainFiles [0, 1, 2] (initialHeap chainNames) = Some (Inr h) \<and>
       dependentFiles (h 0) = {1, 2} \<and> dependentFiles (h 1) = {2} \<and> dependentFiles (h 2) = {}"
  by (auto simp: resolveAll_def findDependentFiles.simps project_defs heap_defs)




text \<open>
  C2, as the code has it: there is no in-progress mark. When two unresolved files
  include each other, a call of \<open>findDependentFiles\<close> on either never returns a
  dependency set.
\<close>

theorem mutual_include_never_returns:
  assumes "\<not> hasFoundAllDependentFiles (h A)" and "\<not> hasFoundAllDependentFiles (h B)"
    and "(A, B) \<in> directIncludes tbl fs h" and "(B, A) \<in> directIncludes tbl fs h"
  shows "findDependentFiles tbl fs A h \<noteq> Some (Inr (found, h'))"
proof
  assume "findDependentFiles tbl fs A h = Some (Inr (found, h'))"
  then have r: "resolves tbl fs A h found h'" by (simp add: findDependentFiles_iff)
  have "trap tbl fs h {A, B}" using assms by (auto simp: trap_def)
  from resolves_trap[OF r this] show False by simp
qed

theorem mutual_include_never_returns_witness:
  "\<not> hasFoundAllDependentFiles (initialHeap cycleNames 0) \<and>
   \<not> hasFoundAllDependentFiles (initialHeap cycleNames 1) \<and>
   (0, 1) \<in> directIncludes cycleTable cycleFiles (initialHeap cycleNames) \<and>
   (1, 0) \<in> directIncludes cycleTable cycleFiles (initialHeap cycleNames) \<and>
   (\<forall>found h'. findDependentFiles cycleTable cycleFiles 0 (initialHeap cycleNames) \<noteq>
      Some (Inr (found, h')))"
proof -
  have e: "(0, 1) \<in> directIncludes cycleTable cycleFiles (initialHeap cycleNames)"
    "(1, 0) \<in> directIncludes cycleTable cycleFiles (initialHeap cycleNames)"
    by (simp_all add: directIncludes_iff cycle_includes)
  have "findDependentFiles cycleTable cycleFiles 0 (initialHeap cycleNames) \<noteq> Some (Inr (found, h'))"
    for found h'
    by (rule mutual_include_never_returns[where B = 1]) (use e in simp_all)
  with e show ?thesis by simp
qed

theorem mutual_include_counterexample:
  "findDependentFiles cycleTable cycleFiles 0 (initialHeap cycleNames) = None"
proof (rule findDependentFiles_diverges[where C = "{0, 1}"])
  show "firstTrap cycleTable cycleFiles (initialHeap cycleNames) {0, 1}"
    by (simp add: firstTrap_def cycle_includes)
qed simp

text \<open>
  C3: when \<open>A\<close> includes \<open>B\<close> and \<open>B\<close> includes \<open>C\<close> (quoted includes found in
  the table), the set that \<open>findDependentFiles\<close> returns for \<open>A\<close>, and keeps in
  \<open>A\<close>, holds \<open>B\<close> and \<open>C\<close>. The call may come at any point of \<open>main\<close>'s loop:
  \<open>earlier\<close> are the files already resolved.
\<close>

theorem transitive_includes:
  assumes "resolveAll tbl fs earlier (initialHeap names) = Some (Inr h)"
    and "findDependentFiles tbl fs A h = Some (Inr (found, h'))"
    and "(A, B) \<in> directIncludes tbl fs (initialHeap names)"
    and "(B, C) \<in> directIncludes tbl fs (initialHeap names)"
  shows "B \<in> found \<and> C \<in> found \<and> dependentFiles (h' A) = found"
proof -
  let ?E = "directIncludes tbl fs (initialHeap names)"
  have c: "consistent tbl fs h"
    using resolveAll_resolved[OF assms(1) consistent_initialHeap] by blast
  have E: "directIncludes tbl fs h = ?E"
    using resolveAll_sameFiles[OF assms(1)] by (rule directIncludes_sameFiles)
  from findDependentFiles_closure(1,2)[OF c assms(2)] have
    found: "found = ?E\<^sup>+ `` {A}" and kept: "dependentFiles (h' A) = found"
    by (simp_all add: E)
  have "(A, B) \<in> ?E\<^sup>+" using assms(3) by blast
  moreover from this assms(4) have "(A, C) \<in> ?E\<^sup>+" by (rule trancl_into_trancl)
  ultimately show ?thesis using found kept by simp
qed

theorem transitive_includes_witness:
  "(0, 1) \<in> directIncludes chainTable chainFiles (initialHeap chainNames) \<and>
   (1, 2) \<in> directIncludes chainTable chainFiles (initialHeap chainNames) \<and>
   (\<exists>found h'. findDependentFiles chainTable chainFiles 0 (initialHeap chainNames) =
        Some (Inr (found, h')) \<and>
      1 \<in> found \<and> 2 \<in> found \<and> dependentFiles (h' 0) = found)"
proof -
  have e: "(0, 1) \<in> directIncludes chainTable chainFiles (initialHeap chainNames)"
    "(1, 2) \<in> directIncludes chainTable chainFiles (initialHeap chainNames)"
    by (simp_all add: directIncludes_iff chain_includes)
  obtain found h' where call:
    "findDependentFiles chainTable chainFiles 0 (initialHeap chainNames) = Some (Inr (found, h'))"
    by (simp add: findDependentFiles.simps project_defs heap_defs)
  have run: "resolveAll chainTable chainFiles [] (initialHeap chainNames) =
      Some (Inr (initialHeap chainNames))" by simp
  from transitive_includes[OF run call e] call e show ?thesis by blast
qed

text \<open>
  C4: once the flag of \<open>f\<close> is set, a call of \<open>findDependentFiles\<close> on \<open>f\<close>
  returns the cached set and leaves the whole state as it is, whatever the table and
  the files hold (nothing is read); and no returning call on any file, and no run of
  \<open>main\<close>'s loop, changes the object \<open>f\<close> afterwards.
\<close>

theorem resolved_is_final:
  assumes "hasFoundAllDependentFiles (h f)"
  shows "findDependentFiles tbl fs f h = Some (Inr (dependentFiles (h f), h)) \<and>
    (\<forall>g found h'. findDependentFiles tbl fs g h = Some (Inr (found, h')) \<longrightarrow> h' f = h f) \<and>
    (\<forall>codeFiles h'. resolveAll tbl fs codeFiles h = Some (Inr h') \<longrightarrow> h' f = h f)"
proof (intro conjI allI impI)
  show "findDependentFiles tbl fs f h = Some (Inr (dependentFiles (h f), h))"
    using assms by (subst findDependentFiles.simps) simp
next
  fix g found h' assume "findDependentFiles tbl fs g h = Some (Inr (found, h'))"
  then have "resolves tbl fs g h found h'" by (simp add: findDependentFiles_iff)
  from resolves_frame[OF this] assms show "h' f = h f" by blast
next
  fix codeFiles h' assume "resolveAll tbl fs codeFiles h = Some (Inr h')"
  then show "h' f = h f" using assms by (rule resolveAll_keeps_resolved)
qed

theorem resolved_is_final_witness:
  "hasFoundAllDependentFiles
     (((initialHeap chainNames)(2 := (initialHeap chainNames 2)\<lparr>hasFoundAllDependentFiles := True\<rparr>)) 2) \<and>
   findDependentFiles chainTable chainFiles 2
     ((initialHeap chainNames)(2 := (initialHeap chainNames 2)\<lparr>hasFoundAllDependentFiles := True\<rparr>)) =
     Some (Inr ({}, (initialHeap chainNames)(2 := (initialHeap chainNames 2)\<lparr>hasFoundAllDependentFiles := True\<rparr>)))"
  using resolved_is_final[of "(initialHeap chainNames)(2 := (initialHeap chainNames 2)\<lparr>hasFoundAllDependentFiles := True\<rparr>)"
      2 chainTable chainFiles]
  by (simp add: initialHeap_def CodeFile_init_def chainNames_def)

text \<open>
  C5: the order in which \<open>main\<close>'s loop visits the discovered files does not
  matter. If the loop over one order of the files returns with a final state, the loop
  over any permutation returns with the same final state, hence with the same
  dependency set for every file.
\<close>

theorem resolution_order_independent:
  assumes "mset codeFiles' = mset codeFiles"
  shows "resolveAll tbl fs codeFiles' (initialHeap names) = Some (Inr h) \<longleftrightarrow>
         resolveAll tbl fs codeFiles (initialHeap names) = Some (Inr h)"
proof -
  from assms have "set codeFiles' = set codeFiles" by (rule mset_eq_setD)
  then show ?thesis
    using resolveAll_same_set[OF _ consistent_initialHeap, of tbl fs codeFiles names h codeFiles']
      resolveAll_same_set[OF _ consistent_initialHeap, of tbl fs codeFiles' names h codeFiles]
    by blast
qed

theorem resolution_order_independent_witness:
  "mset [2, 0, 1] = mset [0, 1, 2::nat] \<and>
   (\<exists>h. resolveAll chainTable chainFiles [0, 1, 2] (initialHeap chainNames) = Some (Inr h) \<and>
        resolveAll chainTable chainFiles [2, 0, 1] (initialHeap chainNames) = Some (Inr h) \<and>
        dependentFiles (h 0) = {1, 2} \<and> dependentFiles (h 1) = {2} \<and> dependentFiles (h 2) = {})"
proof -
  have m: "mset [2, 0, 1] = mset [0, 1, 2::nat]" by simp
  from chain_run obtain h where
    run: "resolveAll chainTable chainFiles [0, 1, 2] (initialHeap chainNames) = Some (Inr h)" and
    sets: "dependentFiles (h 0) = {1, 2}" "dependentFiles (h 1) = {2}" "dependentFiles (h 2) = {}"
    by blast
  from resolution_order_independent[OF m, of chainTable chainFiles chainNames h] run
  have "resolveAll chainTable chainFiles [2, 0, 1] (initialHeap chainNames) = Some (Inr h)"
    by simp
  with m run sets show ?thesis by blast
qed

text \<open>
  C10: the set that \<open>findDependentFiles\<close> returns for a file \<open>f\<close>, at any point
  of \<open>main\<close>'s loop, does not hold \<open>f\<close> itself; a call that returns shows that
  no chain of includes leads from \<open>f\<close> back to \<open>f\<close>.
\<close>

theorem no_self_dependency:
  assumes "resolveAll tbl fs earlier (initialHeap names) = Some (Inr h)"
    and "findDependentFiles tbl fs f h = Some (Inr (found, h'))"
  shows "f \<notin> found \<and> f \<notin> dependentFiles (h' f) \<and>
         (f, f) \<notin> (directIncludes tbl fs (initialHeap names))\<^sup>+"
proof -
  let ?h0 = "initialHeap names"
  let ?E = "directIncludes tbl fs ?h0"
  have c: "consistent tbl fs h"
    using resolveAll_resolved[OF assms(1) consistent_initialHeap] by blast
  have E: "directIncludes tbl fs h = ?E"
    using resolveAll_sameFiles[OF assms(1)] by (rule directIncludes_sameFiles)
  from findDependentFiles_closure(1,2)[OF c assms(2)] have
    found: "found = ?E\<^sup>+ `` {f}" and kept: "dependentFiles (h' f) = found"
    by (simp_all add: E)
  have acyc: "(f, f) \<notin> ?E\<^sup>+"
  proof
    assume cyc: "(f, f) \<in> ?E\<^sup>+"
    let ?C = "{y. (f, y) \<in> ?E\<^sup>* \<and> (y, f) \<in> ?E\<^sup>+}"
    have "trap tbl fs ?h0 ?C"
      unfolding trap_def using cycle_trap[OF cyc] by simp
    with assms(1) have "trap tbl fs h ?C" by (rule resolveAll_trap)
    moreover from assms(2) have "resolves tbl fs f h found h'"
      by (simp add: findDependentFiles_iff)
    ultimately have "f \<notin> ?C" using resolves_trap by blast
    with cyc show False by simp
  qed
  with found kept show ?thesis by simp
qed

theorem no_self_dependency_witness:
  "\<exists>found h'. findDependentFiles chainTable chainFiles 0 (initialHeap chainNames) =
        Some (Inr (found, h')) \<and>
      0 \<notin> found \<and> 0 \<notin> dependentFiles (h' 0) \<and>
      (0, 0) \<notin> (directIncludes chainTable chainFiles (initialHeap chainNames))\<^sup>+"
proof -
  obtain found h' where call:
    "findDependentFiles chainTable chainFiles 0 (initialHeap chainNames) = Some (Inr (found, h'))"
    by (simp add: findDependentFiles.simps project_defs heap_defs)
  have run: "resolveAll chainTable chainFiles [] (initialHeap chainNames) =
      Some (Inr (initialHeap chainNames))" by simp
  from no_self_dependency[OF run call] call show ?thesis by blast
qed

subsection \<open>The emitted text in closed form\<close>

lemma emit_fields [simp]:
  "content (emit s self) = content self @ s"
  "cppFiles (emit s self) = cppFiles self"
  "pathToRoot (emit s self) = pathToRoot self"
  "root (emit s self) = root self"
  "path (emit s self) = path self"
  by (simp_all add: emit_def)

lemma emit_emit: "emit s (emit t self) = emit (t @ s) self"
  by (simp add: emit_def)

lemma emit_Nil [simp]: "emit [] self = self"
  by (simp add: emit_def)

lemma fold_emit:
  "fold (\<lambda>x. emit (f x)) xs self = emit (concat (map f xs)) self"
  by (induction xs arbitrary: self) (simp_all add: emit_emit)

lemma fold_emit_pathToRoot:
  "fold (\<lambda>x self. emit (f (pathToRoot self) x) self) xs self =
     emit (concat (map (f (pathToRoot self)) xs)) self"
  by (induction xs arbitrary: self) (simp_all add: emit_emit)

lemma fold_emit_unless:
  "fold (\<lambda>x self. if x = a then self else emit (f x) self) xs self =
     emit (concat (map f (filter (\<lambda>x. x \<noteq> a) xs))) self"
  by (induction xs arbitrary: self) (simp_all add: emit_emit)

text \<open>The definition of one header-list variable, and the rule of one unit.\<close>

definition headerVariable :: "heap \<Rightarrow> iteration \<Rightarrow> string \<Rightarrow> ref \<Rightarrow> string" where
  "headerVariable h iter toRoot codeFile =
     ''HEADERS_'' @ upper (basename (h codeFile)) @ '' = '' @
     concat (map (\<lambda>d. [BACKSLASH, NL, TAB] @ toRoot @ CodeFile.path (h d) @ filename (h d))
               (sortedDependentFiles h iter codeFile)) @
     [NL, NL]"

definition objectRule :: "heap \<Rightarrow> ref \<Rightarrow> string" where
  "objectRule h codeFile =
     basename (h codeFile) @ ''.o: '' @ basename (h codeFile) @ ''.cpp '' @
     ''$(HEADERS_'' @ upper (basename (h codeFile)) @ '')'' @ [NL] @
     [TAB] @ ''$(CXX) $(CPPFLAGS) $(CXXFLAGS) -c '' @ basename (h codeFile) @ ''.cpp $(INC)'' @ [NL]"

definition makefileText :: "heap \<Rightarrow> iteration \<Rightarrow> string \<Rightarrow> ref list \<Rightarrow> string" where
  "makefileText h iter toRoot units =
     ''INC = -I '' @ toRoot @ [NL] @
     concat (map (headerVariable h iter toRoot) units) @
     ''all:'' @ [NL] @
     concat (map (\<lambda>c. [TAB] @ ''make '' @ basename (h c) @ ''.o'' @ [NL]) units) @
     concat (map (objectRule h) units) @
     ''clean: '' @ [NL, TAB] @ ''rm *.o'' @ [NL]"

lemma printVariables_closed:
  "printVariables h iter self =
     emit (''INC = -I '' @ pathToRoot self @ [NL] @
           concat (map (headerVariable h iter (pathToRoot self)) (cppFiles self))) self"
proof -
  have body: "(\<lambda>codeFile self.
             emit [NL, NL]
               (fold (\<lambda>dependentFile self.
                        emit ([BACKSLASH, NL, TAB] @ pathToRoot self @
                              CodeFile.path (h dependentFile) @ filename (h dependentFile)) self)
                  (sortedDependentFiles h iter codeFile)
                  (emit (''HEADERS_'' @ upper (basename (h codeFile)) @ '' = '') self))) =
        (\<lambda>codeFile self. emit (headerVariable h iter (pathToRoot self) codeFile) self)"
    by (intro ext,
        subst fold_emit_pathToRoot[where f = "\<lambda>r d. [BACKSLASH, NL, TAB] @ r @ CodeFile.path (h d) @ filename (h d)"])
       (simp add: headerVariable_def emit_emit)
  show ?thesis
    unfolding printVariables_def body
    by (subst fold_emit_pathToRoot[where f = "headerVariable h iter"]) (simp add: emit_emit)
qed

lemma printTargetAll_closed:
  "printTargetAll h self =
     emit (''all:'' @ [NL] @
           concat (map (\<lambda>c. [TAB] @ ''make '' @ basename (h c) @ ''.o'' @ [NL]) (cppFiles self))) self"
  by (simp add: printTargetAll_def fold_emit emit_emit)

lemma printTargetObjectFiles_closed:
  "printTargetObjectFiles h self = emit (concat (map (objectRule h) (cppFiles self))) self"
proof -
  have body: "(\<lambda>codeFile self.
             emit ([TAB] @ ''$(CXX) $(CPPFLAGS) $(CXXFLAGS) -c '' @ basename (h codeFile) @
                   ''.cpp $(INC)'' @ [NL])
               (emit (''$(HEADERS_'' @ upper (basename (h codeFile)) @ '')'' @ [NL])
                  (emit (basename (h codeFile) @ ''.o: '' @ basename (h codeFile) @ ''.cpp '') self))) =
        (\<lambda>codeFile. emit (objectRule h codeFile))"
    by (intro ext) (simp add: emit_emit objectRule_def)
  show ?thesis
    unfolding printTargetObjectFiles_def body by (simp add: fold_emit)
qed

lemma generateMakefile_closed:
  "generateMakefile h iter self out =
     (self\<lparr>cppFiles := sort_key (\<lambda>c. getSortingKey (h c)) (cppFiles self),
            content := makefileText h iter (pathToRoot self)
                         (sort_key (\<lambda>c. getSortingKey (h c)) (cppFiles self))\<rparr>,
      out(root self @ path self @ ''Makefile'' \<mapsto>
            makefileText h iter (pathToRoot self)
              (sort_key (\<lambda>c. getSortingKey (h c)) (cppFiles self))))"
  by (simp add: generateMakefile_def Let_def printVariables_closed printTargetAll_closed
      printTargetExecutable_def printTargetObjectFiles_closed printTargetClean_def
      emit_emit makefileText_def)


lemma emit_root_fields [simp]:
  "allPackages (emit s self) = allPackages self"
  "executableName (emit s self) = executableName self"
  "libs (emit s self) = libs self"
  by (simp_all add: emit_def)

text \<open>The text of the root package's script, for the sorted units and the stored packages.\<close>

definition rootMakefileText ::
  "heap \<Rightarrow> iteration \<Rightarrow> (pref \<Rightarrow> string) \<Rightarrow> pref \<Rightarrow> string \<Rightarrow> ref list \<Rightarrow> pref list \<Rightarrow>
     string \<Rightarrow> string list \<Rightarrow> string" where
  "rootMakefileText h iter pathOf selfRef toRoot units packages exe ls =
     ''CXXFLAGS = -std=c++11'' @ [NL] @
     ''INC = -I '' @ toRoot @ [NL] @
     concat (map (headerVariable h iter toRoot) units) @
     ''OBJECTS = '' @
     concat (map (\<lambda>p. [BACKSLASH, NL, TAB] @ ''./'' @ pathOf p @ ''*.o'') packages) @ [NL, NL] @
     ''LDLIBS ='' @ concat (map (\<lambda>lib. '' -l'' @ lib) ls) @ [NL, NL] @
     ''all:'' @ [NL] @
     concat (map (\<lambda>p. [TAB] @ ''cd '' @ pathOf p @ ''; make all'' @ [NL])
               (filter (\<lambda>p. p \<noteq> selfRef) packages)) @
     concat (map (\<lambda>c. [TAB] @ ''make '' @ basename (h c) @ ''.o'' @ [NL]) units) @
     [TAB] @ ''make '' @ exe @ [NL] @
     exe @ '': $(OBJECTS)'' @ [NL] @
     [TAB] @ ''$(CXX) $(LDFLAGS) $(OBJECTS) $(LDLIBS) -o '' @ exe @ [NL] @
     concat (map (objectRule h) units) @
     ''clean:'' @ [NL] @
     concat (map (\<lambda>p. [TAB] @ ''cd '' @ pathOf p @ ''; make clean'' @ [NL])
               (filter (\<lambda>p. p \<noteq> selfRef) packages)) @
     [TAB] @ ''rm *.o '' @ exe @ [NL]"

lemma RootPackage_generateMakefile_closed:
  "RootPackage_generateMakefile h iter pathOf selfRef self out =
     (case allPackages self of
        None \<Rightarrow> Inl TypeError
      | Some packages \<Rightarrow>
          Inr (self\<lparr>cppFiles := sort_key (\<lambda>c. getSortingKey (h c)) (cppFiles self),
                    content := rootMakefileText h iter pathOf selfRef (pathToRoot self)
                                 (sort_key (\<lambda>c. getSortingKey (h c)) (cppFiles self))
                                 packages (executableName self) (libs self)\<rparr>,
               out(root self @ path self @ ''Makefile'' \<mapsto>
                     rootMakefileText h iter pathOf selfRef (pathToRoot self)
                       (sort_key (\<lambda>c. getSortingKey (h c)) (cppFiles self))
                       packages (executableName self) (libs self))))"
  by (simp add: RootPackage_generateMakefile_def RootPackage_printVariables_def
      RootPackage_printTargetAll_def RootPackage_printTargetExecutable_def
      RootPackage_printTargetClean_def Let_def printVariables_closed
      printTargetObjectFiles_closed fold_emit fold_emit_unless emit_emit rootMakefileText_def
      split: option.splits)

subsection \<open>Order of the emitted units and headers\<close>

text \<open>An iteration order lists every member of the set once.\<close>

definition enumerates :: "iteration \<Rightarrow> ref set \<Rightarrow> bool" where
  "enumerates iter s \<longleftrightarrow> set (iter s) = s \<and> distinct (iter s)"

lemma map_insort_key: "map f (insort_key f x xs) = insort (f x) (map f xs)"
  by (induction xs) simp_all

lemma map_sort_key: "map f (sort_key f xs) = sort (map f xs)"
  by (induction xs) (simp_all add: map_insort_key)

lemma enumerates_same_keys:
  assumes "enumerates iter s" "enumerates iter' s"
  shows "map f (sort_key f (iter s)) = map f (sort_key f (iter' s))"
proof -
  from assms have "mset (iter s) = mset (iter' s)"
    by (simp add: enumerates_def set_eq_iff_mset_eq_distinct[symmetric])
  then have "mset (map f (iter s)) = mset (map f (iter' s))" by simp
  then have "sort (map f (iter s)) = sort (map f (iter' s))"
    by (metis properties_for_sort sorted_sort mset_sort)
  then show ?thesis by (simp add: map_sort_key)
qed

lemma headerVariable_keys:
  "headerVariable h iter toRoot c =
     ''HEADERS_'' @ upper (basename (h c)) @ '' = '' @
     concat (map (\<lambda>k. [BACKSLASH, NL, TAB] @ toRoot @ k)
               (map (\<lambda>d. getSortingKey (h d)) (sortedDependentFiles h iter c))) @
     [NL, NL]"
  by (simp add: headerVariable_def getSortingKey_def comp_def)

lemma headerVariable_iteration:
  assumes "enumerates iter (dependentFiles (h c))" "enumerates iter' (dependentFiles (h c))"
  shows "headerVariable h iter' toRoot c = headerVariable h iter toRoot c"
  unfolding headerVariable_keys sortedDependentFiles_def
  using enumerates_same_keys[OF assms, of "\<lambda>d. getSortingKey (h d)"] by simp

lemma makefileText_iteration:
  assumes "\<forall>c\<in>set units. enumerates iter (dependentFiles (h c)) \<and> enumerates iter' (dependentFiles (h c))"
  shows "makefileText h iter' toRoot units = makefileText h iter toRoot units"
proof -
  have eq: "map (headerVariable h iter' toRoot) units = map (headerVariable h iter toRoot) units"
    using assms by (auto intro: headerVariable_iteration)
  show ?thesis unfolding makefileText_def eq ..
qed

lemma printVariables_iteration:
  assumes "\<forall>c\<in>set (cppFiles self). enumerates iter (dependentFiles (h c)) \<and> enumerates iter' (dependentFiles (h c))"
  shows "printVariables h iter' self = printVariables h iter self"
proof -
  have eq: "map (headerVariable h iter' (pathToRoot self)) (cppFiles self) =
        map (headerVariable h iter (pathToRoot self)) (cppFiles self)"
    using assms by (auto intro: headerVariable_iteration)
  show ?thesis unfolding printVariables_closed eq ..
qed

lemma sort_key_twice: "sort_key f (sort_key f xs) = sort_key f xs"
  by (rule sort_key_id_if_sorted) simp

lemma rootMakefileText_iteration:
  assumes "\<forall>c\<in>set units. enumerates iter (dependentFiles (h c)) \<and> enumerates iter' (dependentFiles (h c))"
  shows "rootMakefileText h iter' pathOf selfRef toRoot units packages exe ls =
         rootMakefileText h iter pathOf selfRef toRoot units packages exe ls"
proof -
  have eq: "map (headerVariable h iter' toRoot) units = map (headerVariable h iter toRoot) units"
    using assms by (auto intro: headerVariable_iteration)
  show ?thesis unfolding rootMakefileText_def eq ..
qed

lemma package_script_fixed:
  assumes "\<forall>c\<in>set (cppFiles p). enumerates iter (dependentFiles (h c)) \<and>
              enumerates iter' (dependentFiles (h c))"
    and "generateMakefile h iter p out = (p', out')"
  shows "sorted (map (\<lambda>c. getSortingKey (h c)) (cppFiles p')) \<and>
         mset (cppFiles p') = mset (cppFiles p) \<and>
         p' = p\<lparr>cppFiles := cppFiles p', content := content p'\<rparr> \<and>
         out' = out(root p @ path p @ ''Makefile'' \<mapsto> content p') \<and>
         content p' = makefileText h iter (pathToRoot p) (cppFiles p') \<and>
         out' (root p @ path p @ ''Makefile'') = Some (content p') \<and>
         generateMakefile h iter' p out = (p', out') \<and>
         generateMakefile h iter' p' out' = (p', out')"
proof -
  let ?units = "sort_key (\<lambda>c. getSortingKey (h c)) (cppFiles p)"
  from assms(2) have p': "p' = p\<lparr>cppFiles := ?units, content := makefileText h iter (pathToRoot p) ?units\<rparr>"
    and out': "out' = out(root p @ path p @ ''Makefile'' \<mapsto> makefileText h iter (pathToRoot p) ?units)"
    by (simp_all add: generateMakefile_closed)
  have en: "\<forall>c\<in>set ?units. enumerates iter (dependentFiles (h c)) \<and> enumerates iter' (dependentFiles (h c))"
    using assms(1) by simp
  have sameText: "makefileText h iter' (pathToRoot p) ?units = makefileText h iter (pathToRoot p) ?units"
    using en by (rule makefileText_iteration)
  have "generateMakefile h iter' p out = (p', out')"
    by (simp add: generateMakefile_closed sameText p' out')
  moreover have "generateMakefile h iter' p' out' = (p', out')"
    by (simp add: generateMakefile_closed p' out' sort_key_twice sameText)
  ultimately show ?thesis
    by (simp add: p' out')
qed

lemma root_script_fixed:
  assumes "\<forall>c\<in>set (cppFiles r). enumerates iter (dependentFiles (h c)) \<and>
              enumerates iter' (dependentFiles (h c))"
    and "RootPackage_generateMakefile h iter pathOf selfRef r out = Inr (r', rout')"
  shows "sorted (map (\<lambda>c. getSortingKey (h c)) (cppFiles r')) \<and>
         mset (cppFiles r') = mset (cppFiles r) \<and>
         r' = r\<lparr>cppFiles := cppFiles r', content := content r'\<rparr> \<and>
         rout' = out(root r @ path r @ ''Makefile'' \<mapsto> content r') \<and>
         (\<exists>packages. allPackages r = Some packages \<and>
            content r' = rootMakefileText h iter pathOf selfRef (pathToRoot r) (cppFiles r')
                           packages (executableName r) (libs r)) \<and>
         rout' (root r @ path r @ ''Makefile'') = Some (content r') \<and>
         RootPackage_generateMakefile h iter' pathOf selfRef r out = Inr (r', rout') \<and>
         RootPackage_generateMakefile h iter' pathOf selfRef r' rout' = Inr (r', rout')"
proof -
  let ?units = "sort_key (\<lambda>c. getSortingKey (h c)) (cppFiles r)"
  from assms(2) obtain packages where pk: "allPackages r = Some packages"
    by (auto simp: RootPackage_generateMakefile_closed split: option.splits)
  let ?text = "\<lambda>iter. rootMakefileText h iter pathOf selfRef (pathToRoot r) ?units
                  packages (executableName r) (libs r)"
  from assms(2) pk have r': "r' = r\<lparr>cppFiles := ?units, content := ?text iter\<rparr>"
    and out': "rout' = out(root r @ path r @ ''Makefile'' \<mapsto> ?text iter)"
    by (simp_all add: RootPackage_generateMakefile_closed)
  have en: "\<forall>c\<in>set ?units. enumerates iter (dependentFiles (h c)) \<and> enumerates iter' (dependentFiles (h c))"
    using assms(1) by simp
  have sameText: "?text iter' = ?text iter"
    using en by (rule rootMakefileText_iteration)
  have "RootPackage_generateMakefile h iter' pathOf selfRef r out = Inr (r', rout')"
    by (simp add: RootPackage_generateMakefile_closed pk sameText r' out')
  moreover have "RootPackage_generateMakefile h iter' pathOf selfRef r' rout' = Inr (r', rout')"
    by (simp add: RootPackage_generateMakefile_closed pk r' out' sort_key_twice sameText)
  ultimately show ?thesis
    by (simp add: r' out' pk)
qed

text \<open>
  C6: \<open>generateMakefile\<close>, of a package \<open>p\<close> and of the root package \<open>r\<close>, leaves the
  compilable units, all of them and no others, sorted by their sorting key and emits
  them in that order, changing nothing else of the package but its text; the
  dependent files of each unit's header-list variable are emitted in the order of their
  sorting keys; the text does not depend on the order in which the sets are iterated,
  and generating again over the same resolved state writes the same text.
\<close>

theorem generateMakefile_deterministic:
  assumes "\<forall>c\<in>set (cppFiles p) \<union> set (cppFiles r).
              enumerates iter (dependentFiles (h c)) \<and> enumerates iter' (dependentFiles (h c))"
    and "generateMakefile h iter p out = (p', out')"
    and "RootPackage_generateMakefile h iter pathOf selfRef r out = Inr (r', rout')"
  shows "sorted (map (\<lambda>c. getSortingKey (h c)) (cppFiles p')) \<and>
         sorted (map (\<lambda>c. getSortingKey (h c)) (cppFiles r')) \<and>
         mset (cppFiles p') = mset (cppFiles p) \<and>
         mset (cppFiles r') = mset (cppFiles r) \<and>
         p' = p\<lparr>cppFiles := cppFiles p', content := content p'\<rparr> \<and>
         r' = r\<lparr>cppFiles := cppFiles r', content := content r'\<rparr> \<and>
         out' = out(root p @ path p @ ''Makefile'' \<mapsto> content p') \<and>
         rout' = out(root r @ path r @ ''Makefile'' \<mapsto> content r') \<and>
         (\<forall>c\<in>set (cppFiles p') \<union> set (cppFiles r').
            sorted (map (\<lambda>d. getSortingKey (h d)) (sortedDependentFiles h iter c)) \<and>
            set (sortedDependentFiles h iter c) = dependentFiles (h c)) \<and>
         content p' = makefileText h iter (pathToRoot p) (cppFiles p') \<and>
         (\<exists>packages. allPackages r = Some packages \<and>
            content r' = rootMakefileText h iter pathOf selfRef (pathToRoot r) (cppFiles r')
                           packages (executableName r) (libs r)) \<and>
         out' (root p @ path p @ ''Makefile'') = Some (content p') \<and>
         rout' (root r @ path r @ ''Makefile'') = Some (content r') \<and>
         generateMakefile h iter' p out = (p', out') \<and>
         generateMakefile h iter' p' out' = (p', out') \<and>
         RootPackage_generateMakefile h iter' pathOf selfRef r out = Inr (r', rout') \<and>
         RootPackage_generateMakefile h iter' pathOf selfRef r' rout' = Inr (r', rout')"
proof -
  have enp: "\<forall>c\<in>set (cppFiles p). enumerates iter (dependentFiles (h c)) \<and>
              enumerates iter' (dependentFiles (h c))"
    and enr: "\<forall>c\<in>set (cppFiles r). enumerates iter (dependentFiles (h c)) \<and>
              enumerates iter' (dependentFiles (h c))"
    using assms(1) by auto
  note P = package_script_fixed[OF enp assms(2)]
  note R = root_script_fixed[OF enr assms(3)]
  have "set (cppFiles p') = set (cppFiles p)" "set (cppFiles r') = set (cppFiles r)"
    using P R by (auto dest: mset_eq_setD)
  then have "\<forall>c\<in>set (cppFiles p') \<union> set (cppFiles r').
            sorted (map (\<lambda>d. getSortingKey (h d)) (sortedDependentFiles h iter c)) \<and>
            set (sortedDependentFiles h iter c) = dependentFiles (h c)"
    using assms(1) by (auto simp: sortedDependentFiles_def enumerates_def)
  with P R show ?thesis by blast
qed

subsection \<open>The scripts of the small projects\<close>

lemma upper_examples:
  "upper ''main'' = ''MAIN''" "upper ''a'' = ''A''" "upper ''b'' = ''B''"
  by code_simp+

lemma chainPackage_text:
  "snd (generateMakefile chainResolved upwards chainPackage Map.empty) ''./Makefile'' =
     Some (''INC = -I ./'' @ [NL] @
           ''HEADERS_MAIN = '' @ [BACKSLASH, NL, TAB] @ ''./sub/impl.h'' @
                                [BACKSLASH, NL, TAB] @ ''./util.h'' @ [NL, NL] @
           ''all:'' @ [NL] @
           [TAB] @ ''make main.o'' @ [NL] @
           ''main.o: main.cpp $(HEADERS_MAIN)'' @ [NL] @
           [TAB] @ ''$(CXX) $(CPPFLAGS) $(CXXFLAGS) -c main.cpp $(INC)'' @ [NL] @
           ''clean: '' @ [NL, TAB] @ ''rm *.o'' @ [NL])"
  by (simp add: generateMakefile_closed makefileText_def headerVariable_def objectRule_def
      sortedDependentFiles_def chainPackage_def addCppFile_def Package_init_def count_char_def
      chainResolved_def upwards_def initialHeap_def chainNames_def CodeFile_init_def
      getSortingKey_def upper_examples)


lemmas package_defs =
  makefileText_def headerVariable_def objectRule_def sortedDependentFiles_def
  chainPackage_def twinPackage_def addCppFile_def Package_init_def count_char_def
  chainResolved_def upwards_def initialHeap_def chainNames_def twinNames_def
  CodeFile_init_def getSortingKey_def upper_examples
  pairNames_def pairResolved_def forwards_def backwards_def pairPackage_def

lemma pairRoot_fields:
  "cppFiles pairRoot = [0, 1]" "allPackages pairRoot = Some [0, 2, 1]"
  "content pairRoot = []" "executableName pairRoot = ''app''"
  by (simp_all add: pairRoot_def setAllPackages_def addCppFile_def RootPackage_init_def
      treePaths_def)

theorem generateMakefile_deterministic_witness:
  "cppFiles pairPackage = [0, 1] \<and> cppFiles pairRoot = [0, 1] \<and>
   enumerates forwards (dependentFiles (pairResolved 0)) \<and>
   enumerates backwards (dependentFiles (pairResolved 0)) \<and>
   enumerates forwards (dependentFiles (pairResolved 1)) \<and>
   enumerates backwards (dependentFiles (pairResolved 1)) \<and>
   (\<exists>p' out' r' rout'.
      generateMakefile pairResolved forwards pairPackage Map.empty = (p', out') \<and>
      RootPackage_generateMakefile pairResolved forwards treePaths 0 pairRoot Map.empty =
        Inr (r', rout') \<and>
      cppFiles p' = [1, 0] \<and> cppFiles r' = [1, 0] \<and>
      sortedDependentFiles pairResolved forwards 0 = [3, 2] \<and>
      sortedDependentFiles pairResolved backwards 0 = [3, 2] \<and>
      out' ''./Makefile'' =
        Some (''INC = -I ./'' @ [NL] @
              ''HEADERS_A = '' @ [BACKSLASH, NL, TAB] @ ''./x.h'' @ [NL, NL] @
              ''HEADERS_B = '' @ [BACKSLASH, NL, TAB] @ ''./x.h'' @
                                 [BACKSLASH, NL, TAB] @ ''./y.h'' @ [NL, NL] @
              ''all:'' @ [NL] @
              [TAB] @ ''make a.o'' @ [NL] @
              [TAB] @ ''make b.o'' @ [NL] @
              ''a.o: a.cpp $(HEADERS_A)'' @ [NL] @
              [TAB] @ ''$(CXX) $(CPPFLAGS) $(CXXFLAGS) -c a.cpp $(INC)'' @ [NL] @
              ''b.o: b.cpp $(HEADERS_B)'' @ [NL] @
              [TAB] @ ''$(CXX) $(CPPFLAGS) $(CXXFLAGS) -c b.cpp $(INC)'' @ [NL] @
              ''clean: '' @ [NL, TAB] @ ''rm *.o'' @ [NL]) \<and>
      generateMakefile pairResolved backwards pairPackage Map.empty = (p', out') \<and>
      generateMakefile pairResolved backwards p' out' = (p', out') \<and>
      RootPackage_generateMakefile pairResolved backwards treePaths 0 pairRoot Map.empty =
        Inr (r', rout') \<and>
      RootPackage_generateMakefile pairResolved backwards treePaths 0 r' rout' = Inr (r', rout'))"
proof -
  have given: "cppFiles pairPackage = [0, 1]" "cppFiles pairRoot = [0, 1]"
    "enumerates forwards (dependentFiles (pairResolved 0))"
    "enumerates backwards (dependentFiles (pairResolved 0))"
    "enumerates forwards (dependentFiles (pairResolved 1))"
    "enumerates backwards (dependentFiles (pairResolved 1))"
    by (auto simp: enumerates_def package_defs pairRoot_fields)
  then have en: "\<forall>c\<in>set (cppFiles pairPackage) \<union> set (cppFiles pairRoot).
      enumerates forwards (dependentFiles (pairResolved c)) \<and>
      enumerates backwards (dependentFiles (pairResolved c))"
    by simp
  obtain p' out' where g: "generateMakefile pairResolved forwards pairPackage Map.empty = (p', out')"
    by (cases "generateMakefile pairResolved forwards pairPackage Map.empty")
  obtain r' rout' where rg:
    "RootPackage_generateMakefile pairResolved forwards treePaths 0 pairRoot Map.empty = Inr (r', rout')"
    by (cases "RootPackage_generateMakefile pairResolved forwards treePaths 0 pairRoot Map.empty")
       (simp_all add: RootPackage_generateMakefile_closed pairRoot_fields)
  have units: "cppFiles p' = [1, 0]"
    using g by (auto simp: generateMakefile_closed package_defs)
  have runits: "cppFiles r' = [1, 0]"
    using rg by (auto simp: RootPackage_generateMakefile_closed pairRoot_fields package_defs)
  have deps: "sortedDependentFiles pairResolved forwards 0 = [3, 2]"
    "sortedDependentFiles pairResolved backwards 0 = [3, 2]"
    by (simp_all add: package_defs)
  have script: "out' ''./Makefile'' =
        Some (''INC = -I ./'' @ [NL] @
              ''HEADERS_A = '' @ [BACKSLASH, NL, TAB] @ ''./x.h'' @ [NL, NL] @
              ''HEADERS_B = '' @ [BACKSLASH, NL, TAB] @ ''./x.h'' @
                                 [BACKSLASH, NL, TAB] @ ''./y.h'' @ [NL, NL] @
              ''all:'' @ [NL] @
              [TAB] @ ''make a.o'' @ [NL] @
              [TAB] @ ''make b.o'' @ [NL] @
              ''a.o: a.cpp $(HEADERS_A)'' @ [NL] @
              [TAB] @ ''$(CXX) $(CPPFLAGS) $(CXXFLAGS) -c a.cpp $(INC)'' @ [NL] @
              ''b.o: b.cpp $(HEADERS_B)'' @ [NL] @
              [TAB] @ ''$(CXX) $(CPPFLAGS) $(CXXFLAGS) -c b.cpp $(INC)'' @ [NL] @
              ''clean: '' @ [NL, TAB] @ ''rm *.o'' @ [NL])"
    using g by (auto simp: generateMakefile_closed package_defs)
  from generateMakefile_deterministic[OF en g rg] given g rg units runits deps script
  show ?thesis by blast
qed

subsection \<open>The root package's text in closed form\<close>

lemma RootPackage_printTargetAll_closed:
  "RootPackage_printTargetAll h pathOf selfRef self =
     (case allPackages self of
        None \<Rightarrow> Inl TypeError
      | Some packages \<Rightarrow>
          Inr (emit (''all:'' @ [NL] @
                     concat (map (\<lambda>p. [TAB] @ ''cd '' @ pathOf p @ ''; make all'' @ [NL])
                               (filter (\<lambda>p. p \<noteq> selfRef) packages)) @
                     concat (map (\<lambda>c. [TAB] @ ''make '' @ basename (h c) @ ''.o'' @ [NL])
                               (cppFiles self)) @
                     [TAB] @ ''make '' @ executableName self @ [NL]) self))"
  by (simp add: RootPackage_printTargetAll_def Let_def emit_def fold_emit_unless fold_emit
      split: option.splits)

text \<open>
  C8: the \<open>all\<close> target of the root package, once \<open>setAllPackages\<close> has stored the
  packages, is appended to the text of the script, and its recipe lines are, in this order: one \<open>make all\<close> in the
  directory of every package other than the root package itself, in ascending order of
  the directory paths; one object-build line per own compilable unit; and one line
  building the executable.
\<close>

theorem root_all_target_order:
  "RootPackage_printTargetAll h pathOf selfRef (setAllPackages pathOf packages self) =
     Inr (self\<lparr>allPackages := Some (sort_key pathOf packages),
               content :=
                 content self @
                 ''all:'' @ [NL] @
                 concat (map (\<lambda>p. [TAB] @ ''cd '' @ pathOf p @ ''; make all'' @ [NL])
                           (filter (\<lambda>p. p \<noteq> selfRef) (sort_key pathOf packages))) @
                 concat (map (\<lambda>c. [TAB] @ ''make '' @ basename (h c) @ ''.o'' @ [NL])
                           (cppFiles self)) @
                 [TAB] @ ''make '' @ executableName self @ [NL]\<rparr>) \<and>
   sorted (map pathOf (filter (\<lambda>p. p \<noteq> selfRef) (sort_key pathOf packages))) \<and>
   selfRef \<notin> set (filter (\<lambda>p. p \<noteq> selfRef) (sort_key pathOf packages)) \<and>
   mset (filter (\<lambda>p. p \<noteq> selfRef) (sort_key pathOf packages)) =
     filter_mset (\<lambda>p. p \<noteq> selfRef) (mset packages)"
proof -
  have "sorted (map pathOf (filter (\<lambda>p. p \<noteq> selfRef) (sort_key pathOf packages)))"
    by (rule sorted_filter) simp
  moreover have "mset (filter (\<lambda>p. p \<noteq> selfRef) (sort_key pathOf packages)) =
     filter_mset (\<lambda>p. p \<noteq> selfRef) (mset packages)"
    by simp
  ultimately show ?thesis
    by (simp add: RootPackage_printTargetAll_closed setAllPackages_def emit_def)
qed

theorem root_all_target_order_witness:
  "\<exists>self'. RootPackage_printTargetAll pairResolved treePaths 0 pairRoot = Inr self' \<and>
      content self' =
        ''all:'' @ [NL] @
        [TAB] @ ''cd lib/; make all'' @ [NL] @
        [TAB] @ ''cd sub/; make all'' @ [NL] @
        [TAB] @ ''make b.o'' @ [NL] @
        [TAB] @ ''make a.o'' @ [NL] @
        [TAB] @ ''make app'' @ [NL]"
proof -
  let ?base = "addCppFile 1 (addCppFile 0 (RootPackage_init ''./'' [] ''app'' [''m'']))"
  from root_all_target_order[of pairResolved treePaths 0 "[1, 2, 0]" ?base]
  obtain self' where
    r: "RootPackage_printTargetAll pairResolved treePaths 0 pairRoot = Inr self'" and
    c: "content self' =
          content ?base @ ''all:'' @ [NL] @
          concat (map (\<lambda>p. [TAB] @ ''cd '' @ treePaths p @ ''; make all'' @ [NL])
                    (filter (\<lambda>p. p \<noteq> 0) (sort_key treePaths [1, 2, 0]))) @
          concat (map (\<lambda>c. [TAB] @ ''make '' @ basename (pairResolved c) @ ''.o'' @ [NL])
                    (cppFiles ?base)) @
          [TAB] @ ''make '' @ executableName ?base @ [NL]"
    unfolding pairRoot_def by auto
  from c have "content self' =
        ''all:'' @ [NL] @
        [TAB] @ ''cd lib/; make all'' @ [NL] @
        [TAB] @ ''cd sub/; make all'' @ [NL] @
        [TAB] @ ''make b.o'' @ [NL] @
        [TAB] @ ''make a.o'' @ [NL] @
        [TAB] @ ''make app'' @ [NL]"
    by (simp add: treePaths_def addCppFile_def RootPackage_init_def package_defs)
  with r show ?thesis by blast
qed




end
